theory Spec2Isabelle
  imports Main "HOL-Library.Word" "HOL-Library.Multiset"
begin

unbundle bit_operations_syntax

section \<open>The thread pool of mace/utils/thread\_pool.cc\<close>

text \<open>
  The C++ types of the source: \<open>size_t\<close> is a 64-bit unsigned word whose arithmetic
  wraps around, \<open>int\<close> a 32-bit word read in two's complement. Sizes of vectors and
  indices into them (cpu ids, the number of threads) are natural numbers: a vector's
  size is far below \<open>2 ^ 64\<close> and the source does no arithmetic on them that could wrap.
  The frequencies are \<open>float\<close>s that the source only compares (\<open><\<close>, \<open>>\<close>, \<open>!=\<close>);
  they are elements of a linear order here, which is what finite floats are.
\<close>

type_synonym size_t = "64 word"
type_synonym cint = "32 word"

text \<open>
  A size\_t division by zero is undefined behaviour, and a failed \<open>MACE_CHECK\<close> aborts:
  both end the call with an error value.
\<close>

datatype error = DivByZero | CheckFailed

subsection \<open>The event word\<close>

definition kThreadPoolNone :: cint where "kThreadPoolNone = 0"
definition kThreadPoolInit :: cint where "kThreadPoolInit = 1"
definition kThreadPoolRun :: cint where "kThreadPoolRun = 2"
definition kThreadPoolShutdown :: cint where "kThreadPoolShutdown = 4"
definition kThreadPoolEventMask :: cint where "kThreadPoolEventMask = 0x7fffffff"

definition kTileCountPerThread :: nat where "kTileCountPerThread = 2"
definition kMaxCostUsingSingleThread :: cint where "kMaxCostUsingSingleThread = 100"

text \<open>
  The value stored by \<open>ThreadPool::Run\<close> into \<open>event_\<close>:
  \<^verbatim>\<open>event_.store(kThreadPoolRun | ~(event_ | kThreadPoolEventMask), ...)\<close>.
\<close>

definition run_event :: "cint \<Rightarrow> cint" where
  "run_event e = kThreadPoolRun OR NOT (e OR kThreadPoolEventMask)"

subsection \<open>Choosing the cpu cores\<close>

datatype CPUAffinityPolicy =
  AFFINITY_NONE | AFFINITY_BIG_ONLY | AFFINITY_LITTLE_ONLY
  | AFFINITY_HIGH_PERFORMANCE | AFFINITY_POWER_SAVE

record 'f CPUFreq =
  core_id :: nat
  freq :: 'f

text \<open>The two comparators handed to \<open>std::sort\<close>.\<close>

definition freq_less :: "('f::linorder) CPUFreq \<Rightarrow> 'f CPUFreq \<Rightarrow> bool" where
  "freq_less lhs rhs \<longleftrightarrow> freq lhs < freq rhs"

definition freq_greater :: "('f::linorder) CPUFreq \<Rightarrow> 'f CPUFreq \<Rightarrow> bool" where
  "freq_greater lhs rhs \<longleftrightarrow> freq lhs > freq rhs"

text \<open>
  \<open>std::sort\<close> belongs to the C++ library, not to this repository. The language standard
  promises that its result is a rearrangement of the input in which no element is
  followed by one that the comparator puts before it, and promises nothing about the
  order of elements that the comparator does not separate. \<open>GetCPUCoresToUse\<close> takes
  the sort as its first argument, and \<open>std_sort_spec\<close> is the standard's promise for the
  two comparators of the source.
\<close>

type_synonym 'f sorter =
  "('f CPUFreq \<Rightarrow> 'f CPUFreq \<Rightarrow> bool) \<Rightarrow> 'f CPUFreq list \<Rightarrow> 'f CPUFreq list"


text \<open>
  Two sorts that keep the promise: an insertion sort that leaves equal elements in
  their order, and one that reverses them.
\<close>

fun insert_before :: "('a \<Rightarrow> 'a \<Rightarrow> bool) \<Rightarrow> 'a \<Rightarrow> 'a list \<Rightarrow> 'a list" where
  "insert_before cmp x [] = [x]"
| "insert_before cmp x (y # ys) =
     (if cmp y x then y # insert_before cmp x ys else x # y # ys)"

fun insert_after :: "('a \<Rightarrow> 'a \<Rightarrow> bool) \<Rightarrow> 'a \<Rightarrow> 'a list \<Rightarrow> 'a list" where
  "insert_after cmp x [] = [x]"
| "insert_after cmp x (y # ys) =
     (if cmp x y then x # y # ys else y # insert_after cmp x ys)"

definition stable_sort :: "('a \<Rightarrow> 'a \<Rightarrow> bool) \<Rightarrow> 'a list \<Rightarrow> 'a list" where
  "stable_sort cmp xs = foldr (insert_before cmp) xs []"

definition reversing_sort :: "('a \<Rightarrow> 'a \<Rightarrow> bool) \<Rightarrow> 'a list \<Rightarrow> 'a list" where
  "reversing_sort cmp xs = foldr (insert_after cmp) xs []"

text \<open>
  The first loop of \<open>GetCPUCoresToUse\<close> (lines 57 to 61): entry \<open>i\<close> of \<open>cpu_freq\<close> is
  cpu \<open>i\<close> with its frequency.
\<close>

definition make_cpu_freq :: "'f list \<Rightarrow> 'f CPUFreq list" where
  "make_cpu_freq cpu_max_freqs =
     map (\<lambda>i. \<lparr>core_id = i, freq = cpu_max_freqs ! i\<rparr>) [0..<length cpu_max_freqs]"

text \<open>
  The counting loop (lines 82 to 87): the number of leading entries whose frequency is
  that of entry 0.
\<close>

fun count_leading :: "'f \<Rightarrow> 'f CPUFreq list \<Rightarrow> nat" where
  "count_leading f0 [] = 0"
| "count_leading f0 (c # cs) = (if freq c \<noteq> f0 then 0 else Suc (count_leading f0 cs))"

text \<open>
  \<open>GetCPUCoresToUse\<close>. The last argument is the vector \<open>*cores\<close> on entry; the result is
  that vector on exit.
\<close>

definition GetCPUCoresToUse ::
  "('f::linorder) sorter \<Rightarrow> 'f list \<Rightarrow> CPUAffinityPolicy \<Rightarrow> nat \<Rightarrow> nat list
    \<Rightarrow> error + nat list" where
  "GetCPUCoresToUse srt cpu_max_freqs policy thread_count_hint cores =
    (if cpu_max_freqs \<noteq> [] then
       let cpu_count = length cpu_max_freqs;
           thread_count =
             (if thread_count_hint = 0 \<or> thread_count_hint > cpu_count then cpu_count
              else thread_count_hint)
       in
       if policy \<noteq> AFFINITY_NONE then
         let cpu_freq0 = make_cpu_freq cpu_max_freqs;
             cpu_freq =
               (if policy = AFFINITY_POWER_SAVE \<or> policy = AFFINITY_LITTLE_ONLY
                  then srt freq_less cpu_freq0
                else if policy = AFFINITY_HIGH_PERFORMANCE \<or> policy = AFFINITY_BIG_ONLY
                  then srt freq_greater cpu_freq0
                else cpu_freq0);
             cores_to_use =
               (if policy = AFFINITY_BIG_ONLY \<or> policy = AFFINITY_LITTLE_ONLY
                  then count_leading (freq (cpu_freq ! 0)) cpu_freq
                else thread_count)
         in
         if cores_to_use > 0
           then Inr (map core_id (take cores_to_use cpu_freq))
         else Inl CheckFailed
       else Inr cores
     else Inr cores)"

subsection \<open>The constructor\<close>

text \<open>
  What the constructor leaves in the pool: the size of \<open>threads_\<close>, the value of
  \<open>default_tile_count_\<close>, and the cpu cores copied into every \<open>ThreadInfo\<close>.
\<close>

record ThreadPool =
  threads_size :: nat
  default_tile_count :: nat
  cpu_cores :: "nat list"

text \<open>
  \<open>ThreadPool::ThreadPool\<close>. \<open>cpu_max_freqs\<close> is the table that
  \<open>GetCPUMaxFreq\<close> delivered (empty when it failed).
\<close>

definition ThreadPool_new ::
  "('f::linorder) sorter \<Rightarrow> 'f list \<Rightarrow> nat \<Rightarrow> CPUAffinityPolicy \<Rightarrow> error + ThreadPool" where
  "ThreadPool_new srt cpu_max_freqs thread_count_hint policy =
    (let thread_count0 = max 1 (min thread_count_hint (length cpu_max_freqs)) in
     case GetCPUCoresToUse srt cpu_max_freqs policy thread_count0 [] of
       Inl e \<Rightarrow> Inl e
     | Inr cores_to_use \<Rightarrow>
         let thread_count =
               (if cores_to_use \<noteq> [] \<and> thread_count0 > length cores_to_use
                  then length cores_to_use else thread_count0);
             tile_count =
               (if length cores_to_use \<ge> 2
                   \<and> cpu_max_freqs ! 0 \<noteq> cpu_max_freqs ! (last cores_to_use)
                  then thread_count * kTileCountPerThread else thread_count)
         in
         if tile_count > 0
           then Inr \<lparr>threads_size = thread_count, default_tile_count = tile_count,
                     cpu_cores = cores_to_use\<rparr>
         else Inl CheckFailed)"

text \<open>
  The sentence of the specification on the default tile count, in its own words:
  \<open>T\<close> if all chosen cores share the same frequency, otherwise \<open>T * 2\<close>.
\<close>

definition spec_default_tile_count :: "'f list \<Rightarrow> nat list \<Rightarrow> nat \<Rightarrow> nat" where
  "spec_default_tile_count cpu_max_freqs cores t =
     (if (\<forall>a \<in> set cores. \<forall>b \<in> set cores. cpu_max_freqs ! a = cpu_max_freqs ! b)
        then t else t * 2)"

subsection \<open>Run: the ranges of the workers\<close>

record ThreadInfo =
  range_start :: size_t
  range_end :: size_t
  range_len :: size_t

text \<open>
  The loop of \<open>ThreadPool::Run\<close> (lines 175 to 183), from slot \<open>i\<close> on for \<open>k\<close> more
  slots, with \<open>iters_offset\<close> as it stands.
\<close>

fun Run_loop :: "size_t \<Rightarrow> size_t \<Rightarrow> size_t \<Rightarrow> nat \<Rightarrow> nat \<Rightarrow> size_t \<Rightarrow> ThreadInfo list" where
  "Run_loop iterations iters_per_thread remainder i 0 iters_offset = []"
| "Run_loop iterations iters_per_thread remainder i (Suc k) iters_offset =
     (let count = iters_per_thread + (if of_nat i < remainder then 1 else 0);
          rng_end = min iterations (iters_offset + count);
          len = rng_end - iters_offset
      in \<lparr>range_start = iters_offset, range_end = rng_end, range_len = len\<rparr>
           # Run_loop iterations iters_per_thread remainder (Suc i) k (iters_offset + len))"

text \<open>The worker records as \<open>Run\<close> leaves them before it publishes the event.\<close>

definition Run_ranges :: "nat \<Rightarrow> size_t \<Rightarrow> error + ThreadInfo list" where
  "Run_ranges threads iterations =
     (let thread_count = (of_nat threads :: size_t) in
      if thread_count = 0 then Inl DivByZero
      else Inr (Run_loop iterations (iterations div thread_count)
                  (iterations mod thread_count) 0 threads 0))"

subsection \<open>The tile planner\<close>

text \<open>
  What a call of \<open>Compute1D\<close>, \<open>Compute2D\<close> or \<open>Compute3D\<close> does with the body: nothing,
  one call with the arguments given, or \<open>Run\<close> with a function from the tile index to
  the arguments of the body and the number of tiles.
\<close>

datatype 'c dispatch = Returned | Inline 'c | RunTiles "size_t \<Rightarrow> 'c" size_t

type_synonym axis = "size_t \<times> size_t \<times> size_t"

text \<open>
  Modelled from the spec: \<open>RoundUp\<close> is declared in mace/utils/math.h, which is not
  among the sources. The specification gives the tile count of an axis as the ceiling
  of \<open>items / tile_size\<close>. It says nothing for a tile size of 0, which the planner
  reaches only when line 405 lets an empty third range into \<open>Compute3D\<close>; the value
  there is 0 and nothing below depends on it.
\<close>

definition RoundUp :: "size_t \<Rightarrow> size_t \<Rightarrow> size_t" where
  "RoundUp i factor = (if i mod factor = 0 then i div factor else i div factor + 1)"

text \<open>\<open>1 + (end - start - 1) / step\<close>; the division is undefined when \<open>step = 0\<close>.\<close>

definition items_of :: "size_t \<Rightarrow> size_t \<Rightarrow> size_t \<Rightarrow> error + size_t" where
  "items_of start end step =
     (if step = 0 then Inl DivByZero else Inr (1 + (end - start - 1) div step))"

text \<open>
  The test \<open>cost_per_item >= 0 && items * cost_per_item < kMaxCostUsingSingleThread\<close>:
  the product is taken in \<open>size_t\<close>, to which both \<open>int\<close>s are converted.
\<close>

definition cheap :: "size_t \<Rightarrow> cint \<Rightarrow> bool" where
  "cheap items cost_per_item \<longleftrightarrow>
     0 \<le>s cost_per_item \<and> items * scast cost_per_item < scast kMaxCostUsingSingleThread"

text \<open>The sub-range of one axis for the tile with index \<open>idx\<close> on that axis.\<close>

definition tile_range :: "size_t \<Rightarrow> size_t \<Rightarrow> size_t \<Rightarrow> size_t \<Rightarrow> size_t \<Rightarrow> axis" where
  "tile_range start end step step_tile_size idx =
     (let tile_start = start + idx * step_tile_size;
          tile_end = min end (tile_start + step_tile_size)
      in (tile_start, tile_end, step))"

text \<open>The default tile size of \<open>Compute1D\<close> (lines 316 to 318).\<close>

definition tile_size_1d :: "size_t \<Rightarrow> size_t \<Rightarrow> size_t \<Rightarrow> error + size_t" where
  "tile_size_1d d items tile_size =
     (if tile_size = 0 then
        (if d = 0 then Inl DivByZero else Inr (max 1 (items div d)))
      else Inr tile_size)"

definition Compute1D ::
  "ThreadPool \<Rightarrow> size_t \<Rightarrow> size_t \<Rightarrow> size_t \<Rightarrow> size_t \<Rightarrow> cint \<Rightarrow> error + axis dispatch" where
  "Compute1D p start end step tile_size cost_per_item =
    (if start \<ge> end then Inr Returned
     else case items_of start end step of
       Inl e \<Rightarrow> Inl e
     | Inr items \<Rightarrow>
         if threads_size p \<le> 1 \<or> cheap items cost_per_item
           then Inr (Inline (start, end, step))
         else case tile_size_1d (of_nat (default_tile_count p)) items tile_size of
           Inl e \<Rightarrow> Inl e
         | Inr tile_size' \<Rightarrow>
             let step_tile_size = step * tile_size';
                 tile_count = RoundUp items tile_size'
             in Inr (RunTiles (\<lambda>tile_idx. tile_range start end step step_tile_size tile_idx)
                       tile_count))"

text \<open>The default tile sizes of \<open>Compute2D\<close> (lines 356 to 365).\<close>

definition tile_size_2d ::
  "size_t \<Rightarrow> size_t \<Rightarrow> size_t \<Rightarrow> size_t \<Rightarrow> size_t \<Rightarrow> error + size_t \<times> size_t" where
  "tile_size_2d d items0 items1 tile_size0 tile_size1 =
     (if tile_size0 = 0 \<or> tile_size1 = 0 then
        (if items0 \<ge> d then
           (if d = 0 then Inl DivByZero else Inr (items0 div d, items1))
         else Inr (1, max 1 (items1 * items0 div d)))
      else Inr (tile_size0, tile_size1))"

definition Compute2D ::
  "ThreadPool \<Rightarrow> size_t \<Rightarrow> size_t \<Rightarrow> size_t \<Rightarrow> size_t \<Rightarrow> size_t \<Rightarrow> size_t
    \<Rightarrow> size_t \<Rightarrow> size_t \<Rightarrow> cint \<Rightarrow> error + (axis \<times> axis) dispatch" where
  "Compute2D p start0 end0 step0 start1 end1 step1 tile_size0 tile_size1 cost_per_item =
    (if start0 \<ge> end0 \<or> start1 \<ge> end1 then Inr Returned
     else case items_of start0 end0 step0 of
       Inl e \<Rightarrow> Inl e
     | Inr items0 \<Rightarrow>
     case items_of start1 end1 step1 of
       Inl e \<Rightarrow> Inl e
     | Inr items1 \<Rightarrow>
         if threads_size p \<le> 1 \<or> cheap (items0 * items1) cost_per_item
           then Inr (Inline ((start0, end0, step0), (start1, end1, step1)))
         else case tile_size_2d (of_nat (default_tile_count p)) items0 items1
                     tile_size0 tile_size1 of
           Inl e \<Rightarrow> Inl e
         | Inr (tile_size0', tile_size1') \<Rightarrow>
             let step_tile_size0 = step0 * tile_size0';
                 step_tile_size1 = step1 * tile_size1';
                 tile_count0 = RoundUp items0 tile_size0';
                 tile_count1 = RoundUp items1 tile_size1'
             in Inr (RunTiles
                  (\<lambda>tile_idx.
                     let tile_idx0 = tile_idx div tile_count1;
                         tile_idx1 = tile_idx - tile_idx0 * tile_count1
                     in (tile_range start0 end0 step0 step_tile_size0 tile_idx0,
                         tile_range start1 end1 step1 step_tile_size1 tile_idx1))
                  (tile_count0 * tile_count1)))"

text \<open>The default tile sizes of \<open>Compute3D\<close> (lines 419 to 436).\<close>

definition tile_size_3d ::
  "size_t \<Rightarrow> size_t \<Rightarrow> size_t \<Rightarrow> size_t \<Rightarrow> size_t \<Rightarrow> size_t \<Rightarrow> size_t
    \<Rightarrow> error + size_t \<times> size_t \<times> size_t" where
  "tile_size_3d d items0 items1 items2 tile_size0 tile_size1 tile_size2 =
     (if tile_size0 = 0 \<or> tile_size1 = 0 \<or> tile_size2 = 0 then
        (if items0 \<ge> d then
           (if d = 0 then Inl DivByZero else Inr (items0 div d, items1, items2))
         else
           let items01 = items1 * items0 in
           if items01 \<ge> d then Inr (1, items01 div d, items2)
           else Inr (1, 1, max 1 (items01 * items2 div d)))
      else Inr (tile_size0, tile_size1, tile_size2))"

text \<open>
  \<open>Compute3D\<close>. The test before the first division is the one of line 405, which
  compares \<open>start2\<close> with \<open>end1\<close>.
\<close>

definition Compute3D ::
  "ThreadPool \<Rightarrow> size_t \<Rightarrow> size_t \<Rightarrow> size_t \<Rightarrow> size_t \<Rightarrow> size_t \<Rightarrow> size_t
    \<Rightarrow> size_t \<Rightarrow> size_t \<Rightarrow> size_t \<Rightarrow> size_t \<Rightarrow> size_t \<Rightarrow> size_t \<Rightarrow> cint
    \<Rightarrow> error + (axis \<times> axis \<times> axis) dispatch" where
  "Compute3D p start0 end0 step0 start1 end1 step1 start2 end2 step2
     tile_size0 tile_size1 tile_size2 cost_per_item =
    (if start0 \<ge> end0 \<or> start1 \<ge> end1 \<or> start2 \<ge> end1 then Inr Returned
     else case items_of start0 end0 step0 of
       Inl e \<Rightarrow> Inl e
     | Inr items0 \<Rightarrow>
     case items_of start1 end1 step1 of
       Inl e \<Rightarrow> Inl e
     | Inr items1 \<Rightarrow>
     case items_of start2 end2 step2 of
       Inl e \<Rightarrow> Inl e
     | Inr items2 \<Rightarrow>
         if threads_size p \<le> 1 \<or> cheap (items0 * items1 * items2) cost_per_item
           then Inr (Inline ((start0, end0, step0), (start1, end1, step1),
                             (start2, end2, step2)))
         else case tile_size_3d (of_nat (default_tile_count p)) items0 items1 items2
                     tile_size0 tile_size1 tile_size2 of
           Inl e \<Rightarrow> Inl e
         | Inr (tile_size0', tile_size1', tile_size2') \<Rightarrow>
             let step_tile_size0 = step0 * tile_size0';
                 step_tile_size1 = step1 * tile_size1';
                 step_tile_size2 = step2 * tile_size2';
                 tile_count0 = RoundUp items0 tile_size0';
                 tile_count1 = RoundUp items1 tile_size1';
                 tile_count2 = RoundUp items2 tile_size2';
                 tile_count12 = tile_count1 * tile_count2
             in Inr (RunTiles
                  (\<lambda>tile_idx.
                     let tile_idx0 = tile_idx div tile_count12;
                         tile_idx12 = tile_idx - tile_idx0 * tile_count12;
                         tile_idx1 = tile_idx12 div tile_count2;
                         tile_idx2 = tile_idx12 - tile_idx1 * tile_count2
                     in (tile_range start0 end0 step0 step_tile_size0 tile_idx0,
                         tile_range start1 end1 step1 step_tile_size1 tile_idx1,
                         tile_range start2 end2 step2 step_tile_size2 tile_idx2))
                  (tile_count0 * tile_count12)))"


text \<open>
  The offset of slot \<open>i\<close> in closed form, for \<open>q = N div T\<close> and \<open>r = N mod T\<close>:
  \<open>i\<close> ranges of \<open>q\<close> indices and one more index for each of the first \<open>r\<close> slots.
\<close>

definition slot_offset :: "nat \<Rightarrow> nat \<Rightarrow> nat \<Rightarrow> nat" where
  "slot_offset q r i = i * q + min i r"

text \<open>A pool as the constructor would leave it, with the given values.\<close>

definition pool :: "nat \<Rightarrow> nat \<Rightarrow> ThreadPool" where
  "pool t d = \<lparr>threads_size = t, default_tile_count = d, cpu_cores = []\<rparr>"

text \<open>
  The indices that a body called with \<open>(start, end, step)\<close> visits when it runs
  \<open>for (i = start; i < end; i += step)\<close>, and the interval \<open>[start, end)\<close>.
\<close>

definition on_axis :: "axis \<Rightarrow> size_t \<Rightarrow> bool" where
  "on_axis a x \<longleftrightarrow>
     (case a of (start, end, step) \<Rightarrow> start \<le> x \<and> x < end \<and> (x - start) mod step = 0)"

definition span :: "axis \<Rightarrow> size_t set" where
  "span a = (case a of (start, end, step) \<Rightarrow> {start..<end})"

text \<open>The ceiling of \<open>i / f\<close> on natural numbers.\<close>

definition ceil_div :: "nat \<Rightarrow> nat \<Rightarrow> nat" where
  "ceil_div i f = (if i mod f = 0 then i div f else i div f + 1)"

subsection \<open>ThreadRun: own work, then stealing\<close>

text \<open>
  The workers run \<open>ThreadRun\<close> concurrently. Every access to \<open>range_len\<close>,
  \<open>range_start\<close> and \<open>range_end\<close> is an operation on a \<open>std::atomic<size_t>\<close> with the
  default, sequentially consistent ordering (the read of \<open>range_len\<close>, the
  \<open>compare_exchange_strong\<close>, the \<open>++\<close> and the \<open>--\<close>), so an execution is an interleaving
  of these operations: a step runs one thread from one shared access to the next. The
  call of the body takes the index that the \<open>++\<close> or \<open>--\<close> delivered and is part of that
  step; \<open>calls\<close> records it with the thread that made it.

  A thread is at the read of its own \<open>range_len\<close> (line 270), at the
  \<open>compare_exchange_strong\<close> with the value it read (line 271), at the increment and call
  (line 273), at the same three places of the stealing loop with the peer \<open>t\<close> (lines
  286, 287, 290), or it has left \<open>ThreadRun\<close>.
\<close>

datatype pc =
  Own_load | Own_cas size_t | Own_run
  | Steal_load nat | Steal_cas nat size_t | Steal_run nat
  | Done

record run_state =
  infos :: "ThreadInfo list"
  pcs :: "pc list"
  calls :: "(nat \<times> size_t) list"

text \<open>
  The head of the \<open>for\<close> loop of line 279, entered with peer \<open>t\<close>: the loop ends when
  \<open>t\<close> is the thread itself.
\<close>

definition steal_from :: "nat \<Rightarrow> nat \<Rightarrow> pc" where
  "steal_from tid t = (if t = tid then Done else Steal_load t)"

text \<open>One step of thread \<open>tid\<close> of a pool with \<open>T\<close> threads.\<close>

definition thread_step :: "nat \<Rightarrow> nat \<Rightarrow> run_state \<Rightarrow> run_state" where
  "thread_step T tid s =
    (if tid \<ge> T then s else
     case pcs s ! tid of
       Own_load \<Rightarrow>
         let v = range_len (infos s ! tid) in
         if v > 0 then s\<lparr>pcs := (pcs s)[tid := Own_cas v]\<rparr>
         else s\<lparr>pcs := (pcs s)[tid := steal_from tid ((tid + 1) mod T)]\<rparr>
     | Own_cas v \<Rightarrow>
         if range_len (infos s ! tid) = v
         then s\<lparr>infos := (infos s)[tid := (infos s ! tid)\<lparr>range_len := v - 1\<rparr>],
                pcs := (pcs s)[tid := Own_run]\<rparr>
         else s\<lparr>pcs := (pcs s)[tid := Own_load]\<rparr>
     | Own_run \<Rightarrow>
         let i = range_start (infos s ! tid) in
         s\<lparr>infos := (infos s)[tid := (infos s ! tid)\<lparr>range_start := i + 1\<rparr>],
           pcs := (pcs s)[tid := Own_load],
           calls := calls s @ [(tid, i)]\<rparr>
     | Steal_load t \<Rightarrow>
         let v = range_len (infos s ! t) in
         if v > 0 then s\<lparr>pcs := (pcs s)[tid := Steal_cas t v]\<rparr>
         else s\<lparr>pcs := (pcs s)[tid := steal_from tid ((t + 1) mod T)]\<rparr>
     | Steal_cas t v \<Rightarrow>
         if range_len (infos s ! t) = v
         then s\<lparr>infos := (infos s)[t := (infos s ! t)\<lparr>range_len := v - 1\<rparr>],
                pcs := (pcs s)[tid := Steal_run t]\<rparr>
         else s\<lparr>pcs := (pcs s)[tid := Steal_load t]\<rparr>
     | Steal_run t \<Rightarrow>
         let tail = range_end (infos s ! t) in
         s\<lparr>infos := (infos s)[t := (infos s ! t)\<lparr>range_end := tail - 1\<rparr>],
           pcs := (pcs s)[tid := Steal_load t],
           calls := calls s @ [(tid, tail - 1)]\<rparr>
     | Done \<Rightarrow> s)"

text \<open>
  An execution under a schedule: the list of the threads that take the steps, in
  order. A thread that has left \<open>ThreadRun\<close> takes no step.
\<close>

definition run_schedule :: "nat \<Rightarrow> run_state \<Rightarrow> nat list \<Rightarrow> run_state" where
  "run_schedule T s schedule = foldl (\<lambda>s tid. thread_step T tid s) s schedule"

text \<open>
  The state in which \<open>Run(func, iterations)\<close> releases the workers: the records hold the
  ranges of \<open>Run_ranges\<close> and every thread is at the top of \<open>ThreadRun\<close>.
\<close>

definition start_run :: "nat \<Rightarrow> size_t \<Rightarrow> error + run_state" where
  "start_run T iterations =
     (case Run_ranges T iterations of
        Inl e \<Rightarrow> Inl e
      | Inr ranges \<Rightarrow> Inr \<lparr>infos = ranges, pcs = replicate T Own_load, calls = []\<rparr>)"

definition all_done :: "run_state \<Rightarrow> bool" where
  "all_done s \<longleftrightarrow> list_all (\<lambda>p. p = Done) (pcs s)"

text \<open>The indices passed to the body so far, in the order of the calls.\<close>

definition executed :: "run_state \<Rightarrow> size_t list" where
  "executed s = map snd (calls s)"

text \<open>
  The invariant of an execution. A thread at the increment of \<open>range_start\<close> or at the
  decrement of \<open>range_end\<close> has won a \<open>compare_exchange_strong\<close> on a record and not yet
  taken its index: \<open>pending\<close> counts these threads for record \<open>r\<close>. With \<open>off r\<close> and
  \<open>off (Suc r)\<close> the bounds that \<open>Run\<close> wrote into record \<open>r\<close>, the invariant says that
  \<open>range_start\<close> has only moved up and \<open>range_end\<close> only down, that
  \<open>range_start + range_len + pending = range_end\<close>, that the record of a thread which
  has left its own loop is empty, and that the indices passed to the body are those
  below \<open>range_start\<close> and from \<open>range_end\<close> on, of every record.
\<close>

definition claim :: "nat \<Rightarrow> pc \<Rightarrow> nat \<Rightarrow> nat" where
  "claim th p r =
     (case p of
        Own_run \<Rightarrow> if r = th then 1 else 0
      | Steal_run t \<Rightarrow> if r = t then 1 else 0
      | _ \<Rightarrow> 0)"

definition pending :: "nat \<Rightarrow> pc list \<Rightarrow> nat \<Rightarrow> nat" where
  "pending T ps r = (\<Sum>th<T. claim th (ps ! th) r)"

definition past_own :: "pc \<Rightarrow> bool" where
  "past_own p \<longleftrightarrow> (case p of Own_load \<Rightarrow> False | Own_cas v \<Rightarrow> False | Own_run \<Rightarrow> False
                    | _ \<Rightarrow> True)"

definition pc_ok :: "nat \<Rightarrow> pc \<Rightarrow> bool" where
  "pc_ok T p \<longleftrightarrow>
     (case p of
        Own_cas v \<Rightarrow> v \<noteq> 0
      | Steal_load t \<Rightarrow> t < T
      | Steal_cas t v \<Rightarrow> t < T \<and> v \<noteq> 0
      | Steal_run t \<Rightarrow> t < T
      | _ \<Rightarrow> True)"

definition taken :: "(nat \<Rightarrow> nat) \<Rightarrow> ThreadInfo list \<Rightarrow> nat \<Rightarrow> nat multiset" where
  "taken off is r =
     mset [off r..<unat (range_start (is ! r))]
     + mset [unat (range_end (is ! r))..<off (Suc r)]"

definition run_inv :: "nat \<Rightarrow> (nat \<Rightarrow> nat) \<Rightarrow> run_state \<Rightarrow> bool" where
  "run_inv T off s \<longleftrightarrow>
     length (infos s) = T \<and> length (pcs s) = T
     \<and> (\<forall>r<T. off r \<le> unat (range_start (infos s ! r))
           \<and> unat (range_end (infos s ! r)) \<le> off (Suc r)
           \<and> unat (range_start (infos s ! r)) + unat (range_len (infos s ! r))
               + pending T (pcs s) r = unat (range_end (infos s ! r)))
     \<and> (\<forall>th<T. pc_ok T (pcs s ! th)
           \<and> (past_own (pcs s ! th) \<longrightarrow> range_len (infos s ! th) = 0))
     \<and> mset (map unat (executed s)) = (\<Sum>r<T. taken off (infos s) r)"

text \<open>
  A measure of the work left, for termination. \<open>peers_left\<close> counts the records that the
  stealing loop of thread \<open>tid\<close> still has to visit when it is at peer \<open>t\<close>. \<open>rank\<close> orders
  the places of a thread; a thread at a \<open>compare_exchange_strong\<close> that will fail ranks
  above the read it returns to. \<open>work_left\<close> weighs every index not yet claimed with
  \<open>2 * T + 1\<close>, more than the ranks of all threads can rise when one index is claimed.
\<close>

definition peers_left :: "nat \<Rightarrow> nat \<Rightarrow> nat \<Rightarrow> nat" where
  "peers_left T tid t = (if t < tid then tid - t else tid + T - t)"

definition rank :: "nat \<Rightarrow> nat \<Rightarrow> ThreadInfo list \<Rightarrow> pc \<Rightarrow> nat" where
  "rank T tid is p =
     (case p of
        Own_load \<Rightarrow> 4 * T + 2
      | Own_cas v \<Rightarrow> 4 * T + (if range_len (is ! tid) = v then 1 else 3)
      | Own_run \<Rightarrow> 4 * T + 3
      | Steal_load t \<Rightarrow> 4 * peers_left T tid t + 2
      | Steal_cas t v \<Rightarrow> 4 * peers_left T tid t + (if range_len (is ! t) = v then 1 else 3)
      | Steal_run t \<Rightarrow> 4 * peers_left T tid t + 3
      | Done \<Rightarrow> 0)"

definition work_left :: "nat \<Rightarrow> run_state \<Rightarrow> nat" where
  "work_left T s =
     (2 * T + 1) * (\<Sum>r<T. unat (range_len (infos s ! r)))
     + (\<Sum>th<T. rank T th (infos s) (pcs s ! th))"

section \<open>Properties\<close>

subsection \<open>The event word\<close>

lemma bit_two: "bit (2 :: cint) n \<longleftrightarrow> n = Suc 0"
  using bit_exp_iff [where ?'a = cint, of 1 n] by auto

lemma event_mask: "(0x7fffffff :: cint) = mask 31"
  by (simp add: mask_eq_exp_minus_1)

lemma run_event_bit:
  "bit (run_event e) n \<longleftrightarrow> (n = Suc 0 \<or> (n = 31 \<and> \<not> bit e 31))"
proof -
  have "bit (run_event e) n \<longleftrightarrow> (bit (2::cint) n \<or> (n < 32 \<and> \<not> (bit e n \<or> n < 31)))"
    unfolding run_event_def kThreadPoolRun_def kThreadPoolEventMask_def event_mask
    by (auto simp add: bit_or_iff bit_not_iff bit_and_iff bit_mask_iff dest: bit_imp_le_length)
  also have "\<dots> \<longleftrightarrow> (n = Suc 0 \<or> (n = 31 \<and> \<not> bit e 31))"
    unfolding bit_two by (cases "n = 31") auto
  finally show ?thesis .
qed

lemma run_event_command: "run_event e AND kThreadPoolEventMask = 2"
proof -
  have "bit (run_event e AND mask 31) n \<longleftrightarrow> bit (2::cint) n" for n
    unfolding bit_and_iff bit_mask_iff run_event_bit bit_two by auto
  then show ?thesis
    unfolding kThreadPoolEventMask_def event_mask by (rule bit_eqI)
qed

lemma run_event_changes: "run_event x \<noteq> x"
proof
  assume "run_event x = x"
  then have "bit (run_event x) 31 \<longleftrightarrow> bit x 31" by simp
  then show False unfolding run_event_bit by simp
qed

text \<open>
  C8. For every 32-bit event word \<open>e\<close>, the word published by a RUN dispatch has command
  bits (the word AND 0x7fffffff) equal to \<open>kThreadPoolRun = 2\<close> and its bit 31 is the
  complement of bit 31 of \<open>e\<close>; so the published word differs from the word it replaces,
  and the words published by two consecutive RUN dispatches differ.
\<close>

theorem run_event_generation:
  "run_event e AND kThreadPoolEventMask = kThreadPoolRun
   \<and> run_event e AND 0x7fffffff = 2
   \<and> (bit (run_event e) 31 \<longleftrightarrow> \<not> bit e 31)
   \<and> run_event e \<noteq> e
   \<and> run_event (run_event e) \<noteq> run_event e"
proof -
  have "bit (run_event e) 31 \<longleftrightarrow> \<not> bit e 31"
    unfolding run_event_bit by simp
  then show ?thesis
    using run_event_command [of e] run_event_changes [of e]
      run_event_changes [of "run_event e"]
    by (simp add: kThreadPoolRun_def kThreadPoolEventMask_def)
qed

subsection \<open>The partition written by Run\<close>

lemma slot_offset_Suc: "slot_offset q r (Suc i) = slot_offset q r i + q + (if i < r then 1 else 0)"
  by (simp add: slot_offset_def min_def)

lemma slot_offset_le:
  assumes "r < T" "i \<le> T"
  shows "slot_offset q r i \<le> T * q + r"
proof -
  have "i * q \<le> T * q" using assms by simp
  then show ?thesis by (simp add: slot_offset_def add_mono)
qed

lemma unat_of_nat_small: "n < 2 ^ 64 \<Longrightarrow> unat (of_nat n :: size_t) = n"
  by (simp add: unat_of_nat)

lemma Run_loop_eq:
  fixes iterations :: size_t
  assumes T: "0 < T" "T < 2 ^ 64"
    and q: "q = unat iterations div T" and r: "r = unat iterations mod T"
  shows "i + k \<le> T \<Longrightarrow>
     Run_loop iterations (iterations div of_nat T) (iterations mod of_nat T) i k (of_nat (slot_offset q r i))
     = map (\<lambda>j. \<lparr>range_start = of_nat (slot_offset q r j), range_end = of_nat (slot_offset q r (Suc j)),
                   range_len = of_nat (slot_offset q r (Suc j) - slot_offset q r j)\<rparr>) [i..<i + k]"
proof (induction k arbitrary: i)
  case 0
  then show ?case by simp
next
  case (Suc k)
  have uT: "unat (of_nat T :: size_t) = T"
    using T by (simp add: unat_of_nat_small)
  have uq: "unat (iterations div of_nat T) = q"
    by (simp add: unat_div uT q)
  have ur: "unat (iterations mod of_nat T) = r"
    by (simp add: unat_mod uT r)
  have N: "unat iterations = T * q + r"
    by (simp add: q r)
  have rT: "r < T" using T by (simp add: r)
  have iT: "i < T" using Suc.prems by simp
  have ui: "unat (of_nat i :: size_t) = i"
    using iT T by (simp add: unat_of_nat_small)
  have lt: "(of_nat i :: size_t) < iterations mod of_nat T \<longleftrightarrow> i < r"
    by (simp add: word_less_nat_alt ui ur)
  have le: "slot_offset q r (Suc i) \<le> unat iterations"
    unfolding N using slot_offset_le [OF rT, of "Suc i" q] iT by simp
  have wq: "iterations div of_nat T = of_nat q"
    using uq [symmetric] by simp
  have count: "iterations div of_nat T + (if (of_nat i :: size_t) < iterations mod of_nat T then 1 else 0)
      = of_nat (q + (if i < r then 1 else 0))"
    unfolding lt wq by simp
  have nxt: "(of_nat (slot_offset q r i) :: size_t) + of_nat (q + (if i < r then 1 else 0))
      = of_nat (slot_offset q r (Suc i))"
    by (simp add: slot_offset_Suc)
  have small: "slot_offset q r (Suc i) < 2 ^ 64"
    using le unsigned_less [of iterations, where ?'a = nat] by simp
  have mn: "min iterations (of_nat (slot_offset q r (Suc i))) = of_nat (slot_offset q r (Suc i))"
  proof -
    have "(of_nat (slot_offset q r (Suc i)) :: size_t) \<le> iterations"
      using le small by (simp add: word_le_nat_alt unat_of_nat_small)
    then show ?thesis by (simp add: min_absorb2)
  qed
  have mono: "slot_offset q r i \<le> slot_offset q r (Suc i)"
    by (simp add: slot_offset_Suc)
  have len: "(of_nat (slot_offset q r (Suc i)) :: size_t) - of_nat (slot_offset q r i)
      = of_nat (slot_offset q r (Suc i) - slot_offset q r i)"
    using mono by simp
  have sum_back: "(of_nat (slot_offset q r i) :: size_t) + of_nat (slot_offset q r (Suc i) - slot_offset q r i)
      = of_nat (slot_offset q r (Suc i))"
    using mono by (metis of_nat_add le_add_diff_inverse)
  have ih: "Run_loop iterations (iterations div of_nat T) (iterations mod of_nat T) (Suc i) k
       (of_nat (slot_offset q r (Suc i)))
     = map (\<lambda>j. \<lparr>range_start = of_nat (slot_offset q r j), range_end = of_nat (slot_offset q r (Suc j)),
                   range_len = of_nat (slot_offset q r (Suc j) - slot_offset q r j)\<rparr>) [Suc i..<Suc i + k]"
    using Suc.prems by (intro Suc.IH) simp
  have ups: "[i..<i + Suc k] = i # [Suc i..<Suc i + k]"
    by (simp add: upt_rec)
  show ?case
    unfolding Run_loop.simps Let_def count nxt mn len sum_back ih ups by simp
qed

lemma slot_offset_mono: "i \<le> j \<Longrightarrow> slot_offset q r i \<le> slot_offset q r j"
  unfolding slot_offset_def by (intro add_mono mult_le_mono1 min.mono) simp_all

lemma slot_offset_cover: "n < slot_offset q r T \<Longrightarrow> \<exists>i<T. slot_offset q r i \<le> n \<and> n < slot_offset q r (Suc i)"
proof (induction T)
  case 0
  then show ?case by (simp add: slot_offset_def)
next
  case (Suc T)
  show ?case
  proof (cases "n < slot_offset q r T")
    case True
    with Suc.IH obtain i where "i < T" "slot_offset q r i \<le> n" "n < slot_offset q r (Suc i)" by blast
    then show ?thesis by (intro exI [of _ i]) simp
  next
    case False
    with Suc.prems show ?thesis by (intro exI [of _ T]) simp
  qed
qed

lemma slot_offset_total:
  assumes "0 < T"
  shows "slot_offset (n div T) (n mod T) T = n"
proof -
  have "n mod T < T" using assms by simp
  then have "min T (n mod T) = n mod T" by simp
  then show ?thesis by (simp add: slot_offset_def)
qed

lemma Run_ranges_eq:
  fixes N :: size_t
  assumes T: "0 < T" "T < 2 ^ 64"
  shows "Run_ranges T N = Inr (map (\<lambda>j.
      \<lparr>range_start = of_nat (slot_offset (unat N div T) (unat N mod T) j),
       range_end = of_nat (slot_offset (unat N div T) (unat N mod T) (Suc j)),
       range_len = of_nat (slot_offset (unat N div T) (unat N mod T) (Suc j)
                            - slot_offset (unat N div T) (unat N mod T) j)\<rparr>) [0..<T])"
proof -
  have nz: "(of_nat T :: size_t) \<noteq> 0"
    using T unat_of_nat_small [of T] by (metis unat_0 less_numeral_extra(3))
  have "slot_offset (unat N div T) (unat N mod T) 0 = 0" by (simp add: slot_offset_def)
  then show ?thesis
    using Run_loop_eq [OF T refl refl, of 0 T N] nz
    by (simp add: Run_ranges_def Let_def)
qed

lemma Run_ranges_general:
  fixes N :: size_t
  assumes T: "0 < T" "T < 2 ^ 64"
  shows "\<exists>infos. Run_ranges T N = Inr infos \<and> length infos = T
     \<and> range_start (infos ! 0) = 0
     \<and> (\<forall>i<T. unat (range_start (infos ! i)) = i * (unat N div T) + min i (unat N mod T)
            \<and> unat (range_len (infos ! i))
                = unat N div T + (if i < unat N mod T then 1 else 0)
            \<and> unat (range_end (infos ! i))
                = unat (range_start (infos ! i)) + unat (range_len (infos ! i))
            \<and> (Suc i < T \<longrightarrow> range_start (infos ! Suc i) = range_end (infos ! i)))
     \<and> range_end (infos ! (T - 1)) = N
     \<and> (\<forall>i<T. \<forall>j<T. i \<noteq> j \<longrightarrow>
           {range_start (infos ! i)..<range_end (infos ! i)}
             \<inter> {range_start (infos ! j)..<range_end (infos ! j)} = {})
     \<and> (\<Union>i<T. {range_start (infos ! i)..<range_end (infos ! i)}) = {0..<N}"
proof -
  define q r where "q = unat N div T" and "r = unat N mod T"
  define o' where "o' = slot_offset q r"
  define infos where "infos = map (\<lambda>j.
      \<lparr>range_start = of_nat (o' j), range_end = of_nat (o' (Suc j)),
       range_len = of_nat (o' (Suc j) - o' j)\<rparr>) [0..<T]"
  have run: "Run_ranges T N = Inr infos"
    using Run_ranges_eq [OF T, of N] by (simp add: infos_def o'_def q_def r_def)
  have len: "length infos = T" by (simp add: infos_def)
  have total: "o' T = unat N"
    using slot_offset_total [OF T(1), of "unat N"] by (simp add: o'_def q_def r_def)
  have mono: "o' i \<le> o' j" if "i \<le> j" for i j
    using that by (simp add: o'_def slot_offset_mono)
  have bound: "o' i \<le> unat N" if "i \<le> T" for i
    using mono [OF that] total by simp
  have small: "o' i < 2 ^ 64" if "i \<le> T" for i
    using bound [OF that] unsigned_less [of N, where ?'a = nat] by simp
  have u: "unat (of_nat (o' i) :: size_t) = o' i" if "i \<le> T" for i
    using small [OF that] by (rule unat_of_nat_small)
  have nth_start: "range_start (infos ! i) = of_nat (o' i)" if "i < T" for i
    using that by (simp add: infos_def)
  have nth_end: "range_end (infos ! i) = of_nat (o' (Suc i))" if "i < T" for i
    using that by (simp add: infos_def)
  have nth_len: "range_len (infos ! i) = of_nat (o' (Suc i) - o' i)" if "i < T" for i
    using that by (simp add: infos_def)
  have step: "o' (Suc i) = o' i + q + (if i < r then 1 else 0)" for i
    by (simp add: o'_def slot_offset_Suc)
  have first: "range_start (infos ! 0) = 0"
    using T(1) by (simp add: nth_start o'_def slot_offset_def)
  have each: "unat (range_start (infos ! i)) = i * (unat N div T) + min i (unat N mod T)
            \<and> unat (range_len (infos ! i))
                = unat N div T + (if i < unat N mod T then 1 else 0)
            \<and> unat (range_end (infos ! i))
                = unat (range_start (infos ! i)) + unat (range_len (infos ! i))
            \<and> (Suc i < T \<longrightarrow> range_start (infos ! Suc i) = range_end (infos ! i))"
    if i: "i < T" for i
  proof -
    have d: "o' (Suc i) - o' i = q + (if i < r then 1 else 0)"
      by (simp add: step)
    have dsmall: "o' (Suc i) - o' i < 2 ^ 64"
      using small [of "Suc i"] i by simp
    have a: "unat (range_start (infos ! i)) = o' i"
      using i by (simp add: nth_start u)
    have b: "unat (range_len (infos ! i)) = q + (if i < r then 1 else 0)"
      unfolding nth_len [OF i] using dsmall unfolding d by (rule unat_of_nat_small)
    have c: "unat (range_end (infos ! i)) = o' (Suc i)"
      using i by (simp add: nth_end u)
    have e: "Suc i < T \<longrightarrow> range_start (infos ! Suc i) = range_end (infos ! i)"
      using i by (simp add: nth_start nth_end)
    show ?thesis
      using a b c e step [of i] by (simp add: o'_def slot_offset_def q_def r_def)
  qed
  have last: "range_end (infos ! (T - 1)) = N"
    using T(1) total by (simp add: nth_end)
  have mem: "x \<in> {range_start (infos ! i)..<range_end (infos ! i)}
      \<longleftrightarrow> o' i \<le> unat x \<and> unat x < o' (Suc i)" if "i < T" for i and x :: size_t
    using that by (simp add: nth_start nth_end word_le_nat_alt word_less_nat_alt u)
  have disj: "{range_start (infos ! i)..<range_end (infos ! i)}
             \<inter> {range_start (infos ! j)..<range_end (infos ! j)} = {}"
    if "i < T" "j < T" "i \<noteq> j" for i j
  proof (rule ccontr)
    assume "\<not> ?thesis"
    then obtain x where "x \<in> {range_start (infos ! i)..<range_end (infos ! i)}"
        "x \<in> {range_start (infos ! j)..<range_end (infos ! j)}"
      by blast
    then have x: "o' i \<le> unat x" "unat x < o' (Suc i)"
        "o' j \<le> unat x" "unat x < o' (Suc j)"
      unfolding mem [OF that(1)] mem [OF that(2)] by simp_all
    from that(3) consider "Suc i \<le> j" | "Suc j \<le> i" by linarith
    then show False
    proof cases
      case 1 with mono [of "Suc i" j] x show False by simp
    next
      case 2 with mono [of "Suc j" i] x show False by simp
    qed
  qed
  have cover: "(\<Union>i<T. {range_start (infos ! i)..<range_end (infos ! i)}) = {0..<N}"
  proof (intro set_eqI iffI)
    fix x assume "x \<in> (\<Union>i<T. {range_start (infos ! i)..<range_end (infos ! i)})"
    then obtain i where "i < T" "x \<in> {range_start (infos ! i)..<range_end (infos ! i)}"
      by blast
    then have i: "i < T" "o' i \<le> unat x" "unat x < o' (Suc i)"
      using mem [of i x] by simp_all
    then have "unat x < unat N" using bound [of "Suc i"] by simp
    then show "x \<in> {0..<N}" by (simp add: word_less_nat_alt)
  next
    fix x assume "x \<in> {0..<N}"
    then have "unat x < o' T" by (simp add: word_less_nat_alt total)
    then obtain i where "i < T" "o' i \<le> unat x" "unat x < o' (Suc i)"
      unfolding o'_def using slot_offset_cover by blast
    then have "i < T" "x \<in> {range_start (infos ! i)..<range_end (infos ! i)}"
      using mem [of i x] by simp_all
    then show "x \<in> (\<Union>i<T. {range_start (infos ! i)..<range_end (infos ! i)})"
      by blast
  qed
  show ?thesis
  proof (intro exI [of _ infos] conjI)
    show "\<forall>i<T. unat (range_start (infos ! i)) = i * (unat N div T) + min i (unat N mod T)
            \<and> unat (range_len (infos ! i))
                = unat N div T + (if i < unat N mod T then 1 else 0)
            \<and> unat (range_end (infos ! i))
                = unat (range_start (infos ! i)) + unat (range_len (infos ! i))
            \<and> (Suc i < T \<longrightarrow> range_start (infos ! Suc i) = range_end (infos ! i))"
      using each by blast
    show "\<forall>i<T. \<forall>j<T. i \<noteq> j \<longrightarrow>
           {range_start (infos ! i)..<range_end (infos ! i)}
             \<inter> {range_start (infos ! j)..<range_end (infos ! j)} = {}"
      using disj by blast
  qed (fact run len first last cover)+
qed

lemma Run_ranges_example:
  "Run_ranges 4 10 = Inr [\<lparr>range_start = 0, range_end = 3, range_len = 3\<rparr>,
      \<lparr>range_start = 3, range_end = 6, range_len = 3\<rparr>,
      \<lparr>range_start = 6, range_end = 8, range_len = 2\<rparr>,
      \<lparr>range_start = 8, range_end = 10, range_len = 2\<rparr>]"
  by code_simp

text \<open>
  C2. On a pool with \<open>T\<close> worker slots (\<open>T = threads_.size()\<close>, at least 1), the
  records that \<open>Run(body, N)\<close> writes before it dispatches are: slot \<open>i\<close> starts at
  \<open>o_i = i * (N div T) + min i (N mod T)\<close>, so \<open>o_0 = 0\<close>, has length
  \<open>N div T + (if i < N mod T then 1 else 0)\<close>, ends at \<open>o_i\<close> plus its length, and slot
  \<open>i + 1\<close> starts where slot \<open>i\<close> ends; the last slot ends at \<open>N\<close>; the ranges are
  pairwise disjoint and their union is \<open>[0, N)\<close>. For \<open>T = 4\<close> and \<open>N = 10\<close> the ranges
  are \<open>[0,3)\<close>, \<open>[3,6)\<close>, \<open>[6,8)\<close>, \<open>[8,10)\<close>.
\<close>

theorem Run_ranges_partition:
  "(0 < T \<and> T < 2 ^ 64 \<longrightarrow>
     (\<exists>infos. Run_ranges T N = Inr infos \<and> length infos = T
     \<and> range_start (infos ! 0) = 0
     \<and> (\<forall>i<T. unat (range_start (infos ! i)) = i * (unat N div T) + min i (unat N mod T)
            \<and> unat (range_len (infos ! i))
                = unat N div T + (if i < unat N mod T then 1 else 0)
            \<and> unat (range_end (infos ! i))
                = unat (range_start (infos ! i)) + unat (range_len (infos ! i))
            \<and> (Suc i < T \<longrightarrow> range_start (infos ! Suc i) = range_end (infos ! i)))
     \<and> range_end (infos ! (T - 1)) = N
     \<and> (\<forall>i<T. \<forall>j<T. i \<noteq> j \<longrightarrow>
           {range_start (infos ! i)..<range_end (infos ! i)}
             \<inter> {range_start (infos ! j)..<range_end (infos ! j)} = {})
     \<and> (\<Union>i<T. {range_start (infos ! i)..<range_end (infos ! i)}) = {0..<N}))
   \<and> Run_ranges 4 10 = Inr [\<lparr>range_start = 0, range_end = 3, range_len = 3\<rparr>,
      \<lparr>range_start = 3, range_end = 6, range_len = 3\<rparr>,
      \<lparr>range_start = 6, range_end = 8, range_len = 2\<rparr>,
      \<lparr>range_start = 8, range_end = 10, range_len = 2\<rparr>]"
  using Run_ranges_general [of T N] Run_ranges_example by blast

theorem Run_ranges_partition_witness:
  "(0::nat) < 3 \<and> (3::nat) < 2 ^ 64 \<and>
     (\<exists>infos. Run_ranges 3 2 = Inr infos \<and> length infos = 3
     \<and> range_start (infos ! 0) = 0
     \<and> (\<forall>i<3. unat (range_start (infos ! i)) = i * (unat (2 :: size_t) div 3) + min i (unat (2 :: size_t) mod 3)
            \<and> unat (range_len (infos ! i))
                = unat (2 :: size_t) div 3 + (if i < unat (2 :: size_t) mod 3 then 1 else 0)
            \<and> unat (range_end (infos ! i))
                = unat (range_start (infos ! i)) + unat (range_len (infos ! i))
            \<and> (Suc i < 3 \<longrightarrow> range_start (infos ! Suc i) = range_end (infos ! i)))
     \<and> range_end (infos ! (3 - 1)) = 2
     \<and> (\<forall>i<3. \<forall>j<3. i \<noteq> j \<longrightarrow>
           {range_start (infos ! i)..<range_end (infos ! i)}
             \<inter> {range_start (infos ! j)..<range_end (infos ! j)} = {})
     \<and> (\<Union>i<3. {range_start (infos ! i)..<range_end (infos ! i)}) = {0..<2})"
proof -
  have a: "(0::nat) < 3 \<and> (3::nat) < 2 ^ 64" by simp
  from Run_ranges_partition [of 3 2, THEN conjunct1, rule_format, OF a] a
  show ?thesis by (intro conjI) (simp_all only:)
qed

subsection \<open>The cost test\<close>


lemma scast_nonneg:
  fixes c :: cint
  assumes "0 \<le> sint c"
  shows "(scast c :: size_t) = of_nat (nat (sint c))"
proof -
  have "(scast c :: size_t) = of_int (sint c)" by (rule scast_eq)
  also have "\<dots> = of_nat (nat (sint c))" using assms by simp
  finally show ?thesis .
qed

lemma sint_small: "nat (sint (c :: cint)) < 2 ^ 31"
  using sint_lt [of c] by (simp add: nat_less_iff)

lemma scast_hundred: "(scast kMaxCostUsingSingleThread :: size_t) = 100"
  by (simp add: kMaxCostUsingSingleThread_def)

lemma unat_mult_mod: "unat ((a::size_t) * b) = (unat a * unat b) mod 2 ^ 64"
  using unat_word_ariths(2) [of a b] by simp

lemma cheap_unfold:
  "cheap items c \<longleftrightarrow> 0 \<le> sint c \<and> unat (items * scast c) < 100"
  by (simp add: cheap_def kMaxCostUsingSingleThread_def word_sle_eq word_less_nat_alt)

lemma cheap_iff:
  "cheap items c \<longleftrightarrow> 0 \<le> sint c \<and> (unat items * nat (sint c)) mod 2 ^ 64 < 100"
proof (cases "0 \<le> sint c")
  case True
  have "nat (sint c) < 2 ^ 64"
    using sint_small [of c] by simp
  then have u: "unat (of_nat (nat (sint c)) :: size_t) = nat (sint c)"
    by (rule unat_of_nat_small)
  have "unat (items * scast c) = (unat items * nat (sint c)) mod 2 ^ 64"
    unfolding scast_nonneg [OF True] unat_mult_mod u ..
  then show ?thesis
    unfolding cheap_unfold by simp
next
  case False
  then show ?thesis unfolding cheap_unfold by simp
qed

lemma cheapI:
  assumes "0 \<le> sint c" "unat items * nat (sint c) < 100"
  shows "cheap items c"
proof -
  have "unat items * nat (sint c) < 2 ^ 64"
    using assms(2) by simp
  then have "(unat items * nat (sint c)) mod 2 ^ 64 = unat items * nat (sint c)"
    by (rule mod_less)
  with assms show ?thesis unfolding cheap_iff by simp
qed

lemma cheap_mult:
  assumes "0 \<le> sint c" "unat a * unat b * nat (sint c) < 100"
  shows "cheap (a * b) c"
proof (cases "nat (sint c) = 0")
  case True
  with assms(1) show ?thesis unfolding cheap_iff by simp
next
  case False
  then have "1 \<le> nat (sint c)" by simp
  then have "unat a * unat b * 1 \<le> unat a * unat b * nat (sint c)"
    by (rule mult_le_mono2)
  with assms(2) have ab: "unat a * unat b < 100" by (simp only: mult_1_right)
  then have "unat a * unat b < 2 ^ 64" by simp
  then have "unat (a * b) = unat a * unat b"
    unfolding unat_mult_mod by (rule mod_less)
  with assms show ?thesis by (intro cheapI) simp_all
qed

lemma not_cheap_negative: "sint c < 0 \<Longrightarrow> \<not> cheap items c"
  unfolding cheap_iff by simp

subsection \<open>The number of items of an axis\<close>

lemma items_of_step0: "items_of start end 0 = Inl DivByZero"
  by (simp add: items_of_def)

lemma items_of_Inr: "step \<noteq> 0 \<Longrightarrow> items_of start end step = Inr (1 + (end - start - 1) div step)"
  by (simp add: items_of_def)

lemma items_of_Inl_iff: "items_of start end step = Inl e \<longleftrightarrow> step = 0 \<and> e = DivByZero"
  by (auto simp add: items_of_def)

lemma unat_items:
  fixes start :: size_t
  assumes "start < end" "step \<noteq> 0"
  shows "unat (1 + (end - start - 1) div step) = 1 + (unat end - unat start - 1) div unat step"
proof -
  have lt: "unat start < unat end" using assms(1) by (simp add: word_less_nat_alt)
  have d: "unat (end - start) = unat end - unat start"
    using assms(1) by (intro unat_sub) simp
  have "1 \<le> end - start"
    using lt d by (simp add: word_le_nat_alt)
  then have d1: "unat (end - start - 1) = unat end - unat start - 1"
    using d by (simp add: unat_sub)
  have q: "unat ((end - start - 1) div step) = (unat end - unat start - 1) div unat step"
    by (simp add: unat_div d1)
  have "unat end < 2 ^ 64" using unsigned_less [of "end", where ?'a = nat] by simp
  then have "unat end - unat start - 1 < 2 ^ 64 - 1" using lt by simp
  with div_le_dividend [of "unat end - unat start - 1" "unat step"]
  have "(unat end - unat start - 1) div unat step < 2 ^ 64 - 1"
    by (rule le_less_trans)
  then have "1 + (unat end - unat start - 1) div unat step < 2 ^ 64" by simp
  then have "unat (1 :: size_t) + unat ((end - start - 1) div step) < 2 ^ LENGTH(64)"
    by (simp add: q)
  then have "unat (1 + (end - start - 1) div step) = unat (1 :: size_t) + unat ((end - start - 1) div step)"
    by (simp only: unat_add_lem)
  then show ?thesis by (simp add: q)
qed

subsection \<open>The inline path\<close>

lemma Compute1D_inline:
  assumes "start < end" "step \<noteq> 0"
    and "threads_size p \<le> 1
      \<or> (0 \<le> sint cost \<and> (1 + (unat end - unat start - 1) div unat step) * nat (sint cost) < 100)"
  shows "Compute1D p start end step tile_size cost = Inr (Inline (start, end, step))"
proof -
  have "threads_size p \<le> 1 \<or> cheap (1 + (end - start - 1) div step) cost"
    using assms(3) cheapI [of cost "1 + (end - start - 1) div step"]
    by (simp only: unat_items [OF assms(1,2)]) blast
  then show ?thesis
    using assms(1,2) by (simp add: Compute1D_def items_of_Inr not_le [symmetric])
qed

lemma Compute2D_inline:
  assumes "start0 < end0" "start1 < end1" "step0 \<noteq> 0" "step1 \<noteq> 0"
    and "threads_size p \<le> 1
      \<or> (0 \<le> sint cost \<and>
          (1 + (unat end0 - unat start0 - 1) div unat step0)
          * (1 + (unat end1 - unat start1 - 1) div unat step1) * nat (sint cost) < 100)"
  shows "Compute2D p start0 end0 step0 start1 end1 step1 tile_size0 tile_size1 cost
    = Inr (Inline ((start0, end0, step0), (start1, end1, step1)))"
proof -
  have "threads_size p \<le> 1
      \<or> cheap ((1 + (end0 - start0 - 1) div step0) * (1 + (end1 - start1 - 1) div step1)) cost"
    using assms(5)
      cheap_mult [of cost "1 + (end0 - start0 - 1) div step0" "1 + (end1 - start1 - 1) div step1"]
    by (simp only: unat_items [OF assms(1,3)] unat_items [OF assms(2,4)]) blast
  then show ?thesis
    using assms(1-4) by (simp add: Compute2D_def items_of_Inr not_le [symmetric])
qed

lemma cheap_mult3:
  assumes "0 \<le> sint c" "unat a * unat b * unat d * nat (sint c) < 100"
  shows "cheap (a * b * d) c"
proof (cases "nat (sint c) = 0")
  case True
  with assms(1) show ?thesis unfolding cheap_iff by simp
next
  case False
  then have c1: "1 \<le> nat (sint c)" by simp
  then have "unat a * unat b * unat d * 1 \<le> unat a * unat b * unat d * nat (sint c)"
    by (rule mult_le_mono2)
  with assms(2) have abd: "unat a * unat b * unat d < 100" by (simp only: mult_1_right)
  show ?thesis
  proof (cases "unat d = 0")
    case True
    then have "d = 0" by (simp add: unat_eq_0)
    with assms(1) show ?thesis unfolding cheap_iff by simp
  next
    case False
    then have "1 \<le> unat d" by simp
    then have "unat a * unat b * 1 \<le> unat a * unat b * unat d"
      by (rule mult_le_mono2)
    from this abd have "unat a * unat b * 1 < 100" by (rule le_less_trans)
    then have "unat a * unat b < 2 ^ 64" by simp
    then have "unat (a * b) = unat a * unat b"
      unfolding unat_mult_mod by (rule mod_less)
    with assms show ?thesis by (intro cheap_mult) simp_all
  qed
qed

lemma Compute3D_inline:
  assumes "start0 < end0" "start1 < end1" "start2 < end2" "start2 < end1"
    and "step0 \<noteq> 0" "step1 \<noteq> 0" "step2 \<noteq> 0"
    and "threads_size p \<le> 1
      \<or> (0 \<le> sint cost \<and>
          (1 + (unat end0 - unat start0 - 1) div unat step0)
          * (1 + (unat end1 - unat start1 - 1) div unat step1)
          * (1 + (unat end2 - unat start2 - 1) div unat step2) * nat (sint cost) < 100)"
  shows "Compute3D p start0 end0 step0 start1 end1 step1 start2 end2 step2
      tile_size0 tile_size1 tile_size2 cost
    = Inr (Inline ((start0, end0, step0), (start1, end1, step1), (start2, end2, step2)))"
proof -
  have "threads_size p \<le> 1
      \<or> cheap ((1 + (end0 - start0 - 1) div step0) * (1 + (end1 - start1 - 1) div step1)
                * (1 + (end2 - start2 - 1) div step2)) cost"
    using assms(8)
      cheap_mult3 [of cost "1 + (end0 - start0 - 1) div step0"
        "1 + (end1 - start1 - 1) div step1" "1 + (end2 - start2 - 1) div step2"]
    by (simp only: unat_items [OF assms(1,5)] unat_items [OF assms(2,6)]
          unat_items [OF assms(3,7)]) blast
  then show ?thesis
    using assms(1-7) by (simp add: Compute3D_def items_of_Inr not_le [symmetric])
qed

lemma Compute1D_negative_cost:
  assumes "sint cost < 0" "1 < threads_size p"
  shows "Compute1D p start end step tile_size cost \<noteq> Inr (Inline a)"
  using assms not_cheap_negative [of cost]
  by (simp add: Compute1D_def Let_def split: sum.splits)

lemma Compute2D_negative_cost:
  assumes "sint cost < 0" "1 < threads_size p"
  shows "Compute2D p start0 end0 step0 start1 end1 step1 tile_size0 tile_size1 cost
    \<noteq> Inr (Inline a)"
  using assms not_cheap_negative [of cost]
  by (simp add: Compute2D_def Let_def split: sum.splits prod.splits)

lemma Compute3D_negative_cost:
  assumes "sint cost < 0" "1 < threads_size p"
  shows "Compute3D p start0 end0 step0 start1 end1 step1 start2 end2 step2
      tile_size0 tile_size1 tile_size2 cost \<noteq> Inr (Inline a)"
  using assms not_cheap_negative [of cost]
  by (simp add: Compute3D_def Let_def split: sum.splits prod.splits)

lemma Compute3D_Returned_iff:
  "Compute3D p start0 end0 step0 start1 end1 step1 start2 end2 step2
      tile_size0 tile_size1 tile_size2 cost = Inr Returned
   \<longleftrightarrow> start0 \<ge> end0 \<or> start1 \<ge> end1 \<or> start2 \<ge> end1"
  by (simp add: Compute3D_def Let_def split: sum.splits prod.splits)

lemma Compute2D_Returned_iff:
  "Compute2D p start0 end0 step0 start1 end1 step1 tile_size0 tile_size1 cost = Inr Returned
   \<longleftrightarrow> start0 \<ge> end0 \<or> start1 \<ge> end1"
  by (simp add: Compute2D_def Let_def split: sum.splits prod.splits)

lemma Compute1D_Returned_iff:
  "Compute1D p start end step tile_size cost = Inr Returned \<longleftrightarrow> start \<ge> end"
  by (simp add: Compute1D_def Let_def split: sum.splits)

text \<open>
  When \<open>start2 >= end1\<close>, \<open>Compute3D\<close> returns before it reaches the inline call,
  whatever the third range is: on a pool of one thread, with the ranges \<open>[0,4)\<close>,
  \<open>[0,2)\<close> and \<open>[2,6)\<close>, all non-empty, the body is never called.
\<close>

lemma Compute3D_inline_missed:
  "Compute3D (pool 1 1) 0 4 1 0 2 1 2 6 1 0 0 0 1 = Inr Returned"
  by (simp add: Compute3D_def)

text \<open>
  C4, as stated, fails: the item counts are computed before the number of threads is
  looked at, so a call with a non-empty range and \<open>step = 0\<close> divides by zero, also on a
  pool of one thread.
\<close>

theorem inline_needs_step:
  "Compute1D (pool 1 1) 0 8 0 0 0 = Inl DivByZero"
  by (simp add: Compute1D_def items_of_def)

text \<open>
  C4, amended. A call with non-empty ranges and \<open>step >= 1\<close> on every axis (for
  \<open>Compute3D\<close>: one that line 405 lets pass, \<open>start2 < end1\<close>), on a pool with at most
  one thread, or with \<open>cost_per_item >= 0\<close> and the product of the item counts and
  \<open>cost_per_item\<close> below 100, calls the body once, inline, with the arguments given,
  and does not enter \<open>Run\<close>. With \<open>cost_per_item < 0\<close> and more than one thread no call
  is inline.
\<close>

theorem inline_shortcut:  "(start < end \<and> step \<noteq> 0
      \<and> (threads_size p \<le> 1
          \<or> (0 \<le> sint cost
              \<and> (1 + (unat end - unat start - 1) div unat step) * nat (sint cost) < 100))
     \<longrightarrow> Compute1D p start end step tile_size cost = Inr (Inline (start, end, step)))
   \<and> (start0 < end0 \<and> start1 < end1 \<and> step0 \<noteq> 0 \<and> step1 \<noteq> 0
      \<and> (threads_size p \<le> 1
          \<or> (0 \<le> sint cost
              \<and> (1 + (unat end0 - unat start0 - 1) div unat step0)
                  * (1 + (unat end1 - unat start1 - 1) div unat step1) * nat (sint cost) < 100))
     \<longrightarrow> Compute2D p start0 end0 step0 start1 end1 step1 tile_size0 tile_size1 cost
          = Inr (Inline ((start0, end0, step0), (start1, end1, step1))))
   \<and> (start0 < end0 \<and> start1 < end1 \<and> start2 < end2 \<and> start2 < end1
      \<and> step0 \<noteq> 0 \<and> step1 \<noteq> 0 \<and> step2 \<noteq> 0
      \<and> (threads_size p \<le> 1
          \<or> (0 \<le> sint cost
              \<and> (1 + (unat end0 - unat start0 - 1) div unat step0)
                  * (1 + (unat end1 - unat start1 - 1) div unat step1)
                  * (1 + (unat end2 - unat start2 - 1) div unat step2) * nat (sint cost) < 100))
     \<longrightarrow> Compute3D p start0 end0 step0 start1 end1 step1 start2 end2 step2
            tile_size0 tile_size1 tile_size2 cost
          = Inr (Inline ((start0, end0, step0), (start1, end1, step1), (start2, end2, step2))))
   \<and> (sint cost < 0 \<and> 1 < threads_size p
     \<longrightarrow> Compute1D p start end step tile_size cost \<noteq> Inr (Inline a)
        \<and> Compute2D p start0 end0 step0 start1 end1 step1 tile_size0 tile_size1 cost
            \<noteq> Inr (Inline b)
        \<and> Compute3D p start0 end0 step0 start1 end1 step1 start2 end2 step2
            tile_size0 tile_size1 tile_size2 cost \<noteq> Inr (Inline c))"
  using Compute1D_inline [of start "end" step p cost tile_size]
    Compute2D_inline [of start0 end0 start1 end1 step0 step1 p cost tile_size0 tile_size1]
    Compute3D_inline [of start0 end0 start1 end1 start2 end2 step0 step1 step2 p cost
      tile_size0 tile_size1 tile_size2]
    Compute1D_negative_cost [of cost p start "end" step tile_size a]
    Compute2D_negative_cost [of cost p start0 end0 step0 start1 end1 step1 tile_size0 tile_size1 b]
    Compute3D_negative_cost [of cost p start0 end0 step0 start1 end1 step1 start2 end2 step2
      tile_size0 tile_size1 tile_size2 c]
  by blast

theorem inline_shortcut_witness:
  "(0 :: size_t) < 1000 \<and> (1 :: size_t) \<noteq> 0 \<and> threads_size (pool 1 1) \<le> 1
   \<and> Compute1D (pool 1 1) 0 1000 1 0 1 = Inr (Inline (0, 1000, 1))
   \<and> (0 :: size_t) < 9 \<and> (2 :: size_t) \<noteq> 0 \<and> (0 :: int) \<le> sint (3 :: cint)
   \<and> (1 + (unat (9 :: size_t) - unat (0 :: size_t) - 1) div unat (2 :: size_t))
        * (1 + (unat (9 :: size_t) - unat (0 :: size_t) - 1) div unat (2 :: size_t))
        * nat (sint (3 :: cint)) < 100
   \<and> Compute2D (pool 4 8) 0 9 2 0 9 2 0 0 3 = Inr (Inline ((0, 9, 2), (0, 9, 2)))
   \<and> Compute3D (pool 4 8) 0 9 2 0 9 2 0 1 1 0 0 0 3
        = Inr (Inline ((0, 9, 2), (0, 9, 2), (0, 1, 1)))
   \<and> sint (- 1 :: cint) < 0 \<and> 1 < threads_size (pool 4 8)
   \<and> Compute1D (pool 4 8) 0 1000 1 0 (- 1) \<noteq> Inr (Inline (0, 1000, 1))"
  using inline_shortcut [of 0 1000 1 "pool 1 1" 1 0 0 9 0 9 2 2 0 0 0 1 1 0]
    inline_shortcut [of 0 1000 1 "pool 4 8" 3 0 0 9 0 9 2 2 0 0 0 1 1 0]
    inline_shortcut [of 0 1000 1 "pool 4 8" "- 1" 0 0 9 0 9 2 2 0 0 0 1 1 0 "(0, 1000, 1)"]
  by (simp add: pool_def)

text \<open>
  C6. \<open>Compute3D\<close> should return without calling the body exactly when one of the
  three ranges is empty. Line 405 compares \<open>start2\<close> with \<open>end1\<close>
  (\<open>Compute3D_Returned_iff\<close>): with the ranges \<open>[0,1)\<close>, \<open>[0,1)\<close>, \<open>[1,2)\<close>, none of
  them empty, the call returns without calling the body; with \<open>[0,1)\<close>, \<open>[0,10)\<close> and
  the empty \<open>[5,5)\<close> the body is called.
\<close>

theorem Compute3D_third_axis_test:
  "Compute3D (pool 1 1) 0 1 1 0 1 1 1 2 1 0 0 0 0 = Inr Returned
   \<and> Compute3D (pool 1 1) 0 1 1 0 10 1 5 5 1 0 0 0 0
       = Inr (Inline ((0, 1, 1), (0, 10, 1), (5, 5, 1)))"
  by (simp add: Compute3D_def items_of_def pool_def)

text \<open>
  C10, as stated, fails: a call of \<open>Compute2D\<close> whose first axis has \<open>start < end\<close>
  and \<open>step = 0\<close> and whose second axis is empty returns before any division.
\<close>

theorem step_zero_other_axis_empty:
  "Compute2D (pool 4 4) 0 1 0 1 1 1 0 0 (- 1) = Inr Returned"
  by (simp add: Compute2D_def)

text \<open>
  C10, amended. A call that has \<open>start < end\<close> on every axis (and, for \<open>Compute3D\<close>,
  \<open>start2 < end1\<close>, which line 405 tests) and \<open>step = 0\<close> on some axis divides by zero
  when it computes the item counts; the item count \<open>1 + (end - start - 1) / step\<close> of an
  axis is defined exactly when \<open>step >= 1\<close>.
\<close>

theorem step_zero_divides:
  "(start < end \<and> step = 0
      \<longrightarrow> Compute1D p start end step tile_size cost = Inl DivByZero)
   \<and> (start0 < end0 \<and> start1 < end1 \<and> (step0 = 0 \<or> step1 = 0)
      \<longrightarrow> Compute2D p start0 end0 step0 start1 end1 step1 tile_size0 tile_size1 cost
            = Inl DivByZero)
   \<and> (start0 < end0 \<and> start1 < end1 \<and> start2 < end2 \<and> start2 < end1
        \<and> (step0 = 0 \<or> step1 = 0 \<or> step2 = 0)
      \<longrightarrow> Compute3D p start0 end0 step0 start1 end1 step1 start2 end2 step2
              tile_size0 tile_size1 tile_size2 cost = Inl DivByZero)
   \<and> ((\<exists>items. items_of start end step = Inr items) \<longleftrightarrow> 1 \<le> step)
   \<and> (items_of start end step = Inl DivByZero \<longleftrightarrow> step = 0)"
proof (intro conjI impI)
  show "(\<exists>items. items_of start end step = Inr items) \<longleftrightarrow> 1 \<le> step"
    using unat_gt_0 [of step] by (auto simp add: items_of_def word_le_nat_alt)
  show "items_of start end step = Inl DivByZero \<longleftrightarrow> step = 0"
    by (simp add: items_of_def)
qed (auto simp add: Compute1D_def Compute2D_def Compute3D_def items_of_def not_le [symmetric])

theorem step_zero_divides_witness:
  "(0 :: size_t) < 8 \<and> Compute1D (pool 4 4) 0 8 0 0 (- 1) = Inl DivByZero
   \<and> (2 :: size_t) < 3 \<and> Compute2D (pool 4 4) 0 8 1 2 3 0 0 0 (- 1) = Inl DivByZero
   \<and> Compute3D (pool 4 4) 0 8 1 2 3 1 0 1 0 0 0 0 (- 1) = Inl DivByZero
   \<and> (\<exists>items. items_of 0 8 (2 :: size_t) = Inr items) \<and> (1 :: size_t) \<le> 2"
  using step_zero_divides [of 0 8 0 "pool 4 4" 0 "- 1" 0 8 2 3 1 0 0 0 0 1 0 0]
    step_zero_divides [of 0 8 2 "pool 4 4" 0 "- 1" 0 8 2 3 1 1 0 0 0 1 0 0]
  by simp

subsection \<open>The default tile sizes\<close>








subsection \<open>Sorting\<close>

lemma mset_insert_before: "mset (insert_before cmp x xs) = add_mset x (mset xs)"
  by (induction xs) simp_all


lemma mset_stable_sort: "mset (stable_sort cmp xs) = mset xs"
  unfolding stable_sort_def by (induction xs) (simp_all add: mset_insert_before)


lemma set_insert_before: "set (insert_before cmp x xs) = insert x (set xs)"
  using mset_insert_before [of cmp x xs, THEN arg_cong, of set_mset] by simp








subsection \<open>The table of cpus and its sorted rearrangements\<close>

lemma core_id_make_cpu_freq: "map core_id (make_cpu_freq fs) = [0..<length fs]"
  unfolding make_cpu_freq_def by (simp add: map_idI)

lemma freq_make_cpu_freq:
  "c \<in> set (make_cpu_freq fs) \<Longrightarrow> freq c = fs ! core_id c \<and> core_id c < length fs"
  unfolding make_cpu_freq_def by auto

lemma make_cpu_freq_mem:
  "i < length fs \<Longrightarrow> \<lparr>core_id = i, freq = fs ! i\<rparr> \<in> set (make_cpu_freq fs)"
  unfolding make_cpu_freq_def by auto

lemma rearranged:
  assumes "mset xs = mset (make_cpu_freq fs)"
  shows "length xs = length fs"
    and "distinct (map core_id xs)"
    and "core_id ` set xs = {0..<length fs}"
    and "\<And>c. c \<in> set xs \<Longrightarrow> freq c = fs ! core_id c"
    and "\<And>c. c \<in> set xs \<Longrightarrow> core_id c < length fs"
    and "freq ` set xs = set fs"
proof -
  have s: "set xs = set (make_cpu_freq fs)"
    using assms by (rule mset_eq_setD)
  show "length xs = length fs"
    using assms [THEN mset_eq_length] by (simp add: make_cpu_freq_def)
  have "mset (map core_id xs) = mset (map core_id (make_cpu_freq fs))"
    using assms by simp
  then have "distinct (map core_id xs) \<longleftrightarrow> distinct (map core_id (make_cpu_freq fs))"
    by (rule mset_eq_imp_distinct_iff)
  then show "distinct (map core_id xs)"
    by (simp add: core_id_make_cpu_freq)
  have "core_id ` set xs = set (map core_id (make_cpu_freq fs))"
    unfolding s by simp
  then show "core_id ` set xs = {0..<length fs}"
    by (simp add: core_id_make_cpu_freq)
  show "freq c = fs ! core_id c" if "c \<in> set xs" for c
    using that freq_make_cpu_freq [of c fs] by (simp add: s)
  show "core_id c < length fs" if "c \<in> set xs" for c
    using that freq_make_cpu_freq [of c fs] by (simp add: s)
  have "map freq (make_cpu_freq fs) = fs"
    unfolding make_cpu_freq_def by (simp add: map_nth comp_def)
  then have "set (map freq (make_cpu_freq fs)) = set fs" by simp
  then have "freq ` set (make_cpu_freq fs) = set fs" by simp
  then show "freq ` set xs = set fs" by (simp add: s)
qed








lemma thread_count_min:
  "fs \<noteq> [] \<Longrightarrow>
   min (if hint = 0 \<or> hint > length fs then length fs else hint) (length fs)
   = (if hint = 0 \<or> hint > length fs then length fs else hint)"
  by auto









text \<open>
  With a stable sort the cpus of equal frequency stay in ascending cpu id, as the
  stable insertion sort shows.
\<close>

lemma stable_insert_before:
  assumes asym: "\<And>a b. cmp a b \<Longrightarrow> \<not> cmp b a"
    and trans: "\<And>a b c. \<not> cmp b a \<Longrightarrow> \<not> cmp c b \<Longrightarrow> \<not> cmp c a"
  shows "\<forall>y \<in> set xs. key x < (key y :: nat)
    \<Longrightarrow> sorted_wrt (\<lambda>a b. \<not> cmp b a \<and> (\<not> cmp a b \<longrightarrow> key a < key b)) xs
    \<Longrightarrow> sorted_wrt (\<lambda>a b. \<not> cmp b a \<and> (\<not> cmp a b \<longrightarrow> key a < key b))
          (insert_before cmp x xs)"
proof (induction xs)
  case Nil
  then show ?case by simp
next
  case (Cons y ys)
  show ?case
  proof (cases "cmp y x")
    case True
    with Cons asym [OF True] show ?thesis
      by (auto simp add: set_insert_before)
  next
    case False
    with Cons trans [where a = x and b = y] show ?thesis
      by auto
  qed
qed

lemma stable_sort_ties:
  assumes asym: "\<And>a b. cmp a b \<Longrightarrow> \<not> cmp b a"
    and trans: "\<And>a b c. \<not> cmp b a \<Longrightarrow> \<not> cmp c b \<Longrightarrow> \<not> cmp c a"
  shows "sorted_wrt (\<lambda>a b. key a < (key b :: nat)) xs
    \<Longrightarrow> sorted_wrt (\<lambda>a b. \<not> cmp b a \<and> (\<not> cmp a b \<longrightarrow> key a < key b))
          (stable_sort cmp xs)"
proof (induction xs)
  case Nil
  then show ?case by (simp add: stable_sort_def)
next
  case (Cons x xs)
  have s: "set (stable_sort cmp xs) = set xs"
    using mset_stable_sort [of cmp xs] by (rule mset_eq_setD)
  have "sorted_wrt (\<lambda>a b. \<not> cmp b a \<and> (\<not> cmp a b \<longrightarrow> key a < key b))
      (insert_before cmp x (stable_sort cmp xs))"
    using asym trans
  proof (rule stable_insert_before)
    show "\<forall>y \<in> set (stable_sort cmp xs). key x < key y"
      using Cons.prems by (simp add: s)
    show "sorted_wrt (\<lambda>a b. \<not> cmp b a \<and> (\<not> cmp a b \<longrightarrow> key a < key b))
        (stable_sort cmp xs)"
      using Cons by simp
  qed
  then show ?case by (simp add: stable_sort_def)
qed

lemma make_cpu_freq_ascending:
  "sorted_wrt (\<lambda>a b. core_id a < core_id b) (make_cpu_freq fs)"
proof -
  have "sorted_wrt (<) (map core_id (make_cpu_freq fs))"
    unfolding core_id_make_cpu_freq by (rule sorted_wrt_upt)
  then show ?thesis by (simp add: sorted_wrt_map)
qed

lemma stable_sort_keeps_cpu_order:
  fixes fs :: "('f::linorder) list"
  assumes "GetCPUCoresToUse stable_sort fs policy hint cores = Inr chosen"
    and "fs \<noteq> []" and "policy \<noteq> AFFINITY_NONE"
  shows "sorted_wrt (\<lambda>a b. fs ! a = fs ! b \<longrightarrow> a < b) chosen"
proof -
  define cmp :: "'f CPUFreq \<Rightarrow> 'f CPUFreq \<Rightarrow> bool" where
    "cmp = (if policy = AFFINITY_POWER_SAVE \<or> policy = AFFINITY_LITTLE_ONLY
            then freq_less else freq_greater)"
  define xs where "xs = stable_sort cmp (make_cpu_freq fs)"
  have cmp: "cmp a b \<Longrightarrow> freq a \<noteq> freq b" for a b
    by (auto simp add: cmp_def freq_less_def freq_greater_def split: if_splits)
  have "sorted_wrt (\<lambda>a b. \<not> cmp b a \<and> (\<not> cmp a b \<longrightarrow> core_id a < core_id b)) xs"
    unfolding xs_def
    by (rule stable_sort_ties [OF _ _ make_cpu_freq_ascending])
      (auto simp add: cmp_def freq_less_def freq_greater_def)
  then have ties: "sorted_wrt (\<lambda>a b. freq a = freq b \<longrightarrow> core_id a < core_id b) xs"
    by (rule sorted_wrt_mono_rel [rotated])
      (auto simp add: cmp_def freq_less_def freq_greater_def split: if_splits)
  have m: "mset xs = mset (make_cpu_freq fs)"
    unfolding xs_def by (rule mset_stable_sort)
  note r = rearranged [OF m]
  from assms obtain k where chosen: "chosen = map core_id (take k xs)"
    by (cases policy)
      (auto simp add: GetCPUCoresToUse_def Let_def xs_def cmp_def split: if_splits)
  have "sorted_wrt (\<lambda>a b. freq a = freq b \<longrightarrow> core_id a < core_id b) (take k xs)"
    using ties by (rule sorted_wrt_take)
  then have "sorted_wrt (\<lambda>a b. fs ! core_id a = fs ! core_id b \<longrightarrow> core_id a < core_id b)
      (take k xs)"
    by (rule sorted_wrt_mono_rel [rotated]) (auto dest!: in_set_takeD simp add: r(4))
  then show ?thesis by (simp add: chosen sorted_wrt_map)
qed

subsection \<open>The constructor\<close>



lemma spec_default_tile_count_examples:
  "spec_default_tile_count [1500, 2000, 2000 :: nat] [1, 2] 2 = 2"
  "spec_default_tile_count [1500, 2000, 1500 :: nat] [1, 0, 2] 3 = 6"
  by (simp_all add: spec_default_tile_count_def)

text \<open>
  C3. The default tile count should be the thread count \<open>T\<close> when all chosen cores
  share one frequency and \<open>T * 2\<close> otherwise, and is at least 1. It is at least 1
  (\<open>ThreadPool_new_tile_count\<close>), but line 137 compares the frequency of cpu 0, not of
  the first chosen core, with that of the last chosen core. With the table
  \<open>[1500, 2000, 2000]\<close> and big\_only the chosen cores 1 and 2 share a frequency and
  the count is \<open>2 * 2 = 4\<close>; with \<open>[1500, 2000, 1500]\<close>, high\_performance and three
  threads the chosen cores differ in frequency and the count is 3.
\<close>

theorem default_tile_count_wrong_core:
  "ThreadPool_new stable_sort [1500, 2000, 2000 :: nat] 3 AFFINITY_BIG_ONLY
     = Inr \<lparr>threads_size = 2, default_tile_count = 4, cpu_cores = [1, 2]\<rparr>
   \<and> ThreadPool_new stable_sort [1500, 2000, 1500 :: nat] 3 AFFINITY_HIGH_PERFORMANCE
     = Inr \<lparr>threads_size = 3, default_tile_count = 3, cpu_cores = [1, 0, 2]\<rparr>"
  by (simp add: ThreadPool_new_def GetCPUCoresToUse_def make_cpu_freq_def stable_sort_def
      freq_greater_def kTileCountPerThread_def
      upt_rec [of 0] upt_rec [of 1] upt_rec [of 2] upt_rec [of "Suc 0"])

lemma default_tile_count_wrong_core_reversing:
  "ThreadPool_new reversing_sort [1500, 2000, 2000 :: nat] 3 AFFINITY_BIG_ONLY
     = Inr \<lparr>threads_size = 2, default_tile_count = 4, cpu_cores = [2, 1]\<rparr>
   \<and> ThreadPool_new reversing_sort [1500, 2000, 1500 :: nat] 3 AFFINITY_HIGH_PERFORMANCE
     = Inr \<lparr>threads_size = 3, default_tile_count = 3, cpu_cores = [1, 2, 0]\<rparr>"
  by (simp add: ThreadPool_new_def GetCPUCoresToUse_def make_cpu_freq_def reversing_sort_def
      freq_greater_def kTileCountPerThread_def
      upt_rec [of 0] upt_rec [of 1] upt_rec [of 2] upt_rec [of "Suc 0"])

subsection \<open>Tiles of one axis, on natural numbers\<close>

lemma ceil_div_upper: "0 < f \<Longrightarrow> i \<le> ceil_div i f * f"
proof -
  assume f: "0 < f"
  have e: "i div f * f + i mod f = i" by simp
  show ?thesis
  proof (cases "i mod f = 0")
    case True with e show ?thesis by (simp add: ceil_div_def)
  next
    case False
    have "i mod f < f" using f by simp
    with e have "i \<le> i div f * f + f" by linarith
    then show ?thesis using False by (simp add: ceil_div_def)
  qed
qed

lemma ceil_div_lower: "0 < f \<Longrightarrow> 0 < i \<Longrightarrow> (ceil_div i f - 1) * f < i"
proof -
  assume f: "0 < f" and i: "0 < i"
  show ?thesis
  proof (cases "i mod f = 0")
    case True
    then have e: "i div f * f = i" by auto
    with i have "0 < i div f" by (cases "i div f") auto
    then have "(i div f - 1) * f + f = i div f * f"
      by (cases "i div f") simp_all
    with e f show ?thesis using True by (simp add: ceil_div_def)
  next
    case False
    have "i div f * f + i mod f = i" by simp
    with False have "i div f * f < i" by linarith
    then show ?thesis using False by (simp add: ceil_div_def)
  qed
qed

lemma ceil_div_le: "0 < f \<Longrightarrow> ceil_div i f \<le> i"
proof -
  assume f: "0 < f"
  show ?thesis
  proof (cases "i mod f = 0")
    case True
    then show ?thesis by (simp add: ceil_div_def)
  next
    case False
    then have "f \<noteq> 1" by auto
    with f have "2 \<le> f" by simp
    have "0 < i" using False by (cases i) auto
    then have "i div f < i" using \<open>2 \<le> f\<close> by (intro div_less_dividend) simp_all
    then show ?thesis using False by (simp add: ceil_div_def)
  qed
qed

lemma ceil_div_pos: "0 < f \<Longrightarrow> 0 < i \<Longrightarrow> 0 < ceil_div i f"
  using ceil_div_upper [of f i] by (cases "ceil_div i f") simp_all

lemma tile_index_bound:
  fixes s e st ts x :: nat
  assumes st: "0 < st" and ts: "0 < ts" and x: "s \<le> x" "x < e"
  shows "(x - s) div (st * ts) < ceil_div (1 + (e - s - 1) div st) ts"
proof -
  let ?items = "1 + (e - s - 1) div st"
  have "(x - s) div (st * ts) = (x - s) div st div ts"
    by (simp add: div_mult2_eq)
  also have "\<dots> \<le> (e - s - 1) div st div ts"
    using x by (intro div_le_mono) simp
  finally have a: "(x - s) div (st * ts) \<le> (?items - 1) div ts" by simp
  have "(?items - 1) div ts * ts \<le> ?items - 1" by simp
  also have "\<dots> < ?items" by simp
  also have "\<dots> \<le> ceil_div ?items ts * ts" using ts by (rule ceil_div_upper)
  finally have "(?items - 1) div ts < ceil_div ?items ts" by simp
  with a show ?thesis by simp
qed

lemma tile_start_bound:
  fixes s e st ts j :: nat
  assumes st: "0 < st" and ts: "0 < ts" and se: "s < e"
    and j: "j < ceil_div (1 + (e - s - 1) div st) ts"
  shows "s + j * (st * ts) < e"
proof -
  let ?items = "1 + (e - s - 1) div st"
  have "j \<le> ceil_div ?items ts - 1" using j by simp
  then have "j * ts \<le> (ceil_div ?items ts - 1) * ts" by (rule mult_le_mono1)
  also have "\<dots> < ?items" using ts by (intro ceil_div_lower) simp_all
  finally have "j * ts \<le> (e - s - 1) div st" by simp
  then have "j * ts * st \<le> (e - s - 1) div st * st" by (rule mult_le_mono1)
  also have "\<dots> \<le> e - s - 1" by simp
  finally have "j * (st * ts) \<le> e - s - 1" by (simp add: ac_simps)
  with se show ?thesis by simp
qed

lemma in_tile_iff:
  fixes s e st ts x j :: nat
  assumes st: "0 < st" and ts: "0 < ts" and x: "s \<le> x" "x < e" "(x - s) mod st = 0"
  shows "(s + j * (st * ts) \<le> x \<and> x < min e (s + j * (st * ts) + st * ts)
          \<and> (x - (s + j * (st * ts))) mod st = 0)
     \<longleftrightarrow> j = (x - s) div (st * ts)"
proof -
  define w where "w = st * ts"
  define a where "a = j * w"
  have w: "0 < w" using st ts by (simp add: w_def)
  have m: "(x - (s + a)) mod st = 0" if "a \<le> x - s"
  proof -
    have "x - s = (x - (s + a)) + j * ts * st"
      using that x(1) by (simp add: a_def w_def ac_simps)
    then have "(x - s) mod st = (x - (s + a)) mod st"
      by (simp only: mod_mult_self1)
    with x(3) show ?thesis by simp
  qed
  have "(s + a \<le> x \<and> x < min e (s + a + w) \<and> (x - (s + a)) mod st = 0)
     \<longleftrightarrow> j = (x - s) div w"
  proof
    assume "s + a \<le> x \<and> x < min e (s + a + w) \<and> (x - (s + a)) mod st = 0"
    then have "a \<le> x - s" "x - s < a + w" by auto
    then have "(x - s) div w = j"
      unfolding a_def by (intro div_nat_eqI) (simp_all add: ac_simps)
    then show "j = (x - s) div w" by simp
  next
    assume j: "j = (x - s) div w"
    have 1: "a \<le> x - s" unfolding a_def j by simp
    have "x - s = a + (x - s) mod w" unfolding a_def j by simp
    moreover have "(x - s) mod w < w" using w by simp
    ultimately have 2: "x - s < a + w" by linarith
    show "s + a \<le> x \<and> x < min e (s + a + w) \<and> (x - (s + a)) mod st = 0"
      using 1 2 m [OF 1] x by auto
  qed
  then show ?thesis unfolding a_def w_def .
qed

subsection \<open>Tiles of one axis, on words\<close>

lemma unat_RoundUp:
  assumes "factor \<noteq> 0"
  shows "unat (RoundUp i factor) = ceil_div (unat i) (unat factor)"
proof -
  have f: "0 < unat factor" using assms by (simp add: unat_gt_0)
  have m: "i mod factor = 0 \<longleftrightarrow> unat i mod unat factor = 0"
    by (simp add: unat_eq_0 [symmetric] unat_mod)
  show ?thesis
  proof (cases "unat i mod unat factor = 0")
    case True
    then show ?thesis by (simp add: RoundUp_def ceil_div_def m unat_div)
  next
    case False
    have "ceil_div (unat i) (unat factor) \<le> unat i" using f by (rule ceil_div_le)
    then have "unat i div unat factor + 1 \<le> unat i"
      using False by (simp add: ceil_div_def)
    also have "unat i < 2 ^ 64" using unsigned_less [of i, where ?'a = nat] by simp
    finally have "unat (i div factor) + unat (1 :: size_t) < 2 ^ LENGTH(64)"
      by (simp add: unat_div)
    then have "unat (i div factor + 1) = unat (i div factor) + unat (1 :: size_t)"
      by (simp only: unat_add_lem)
    then show ?thesis
      using False by (simp add: RoundUp_def ceil_div_def m unat_div)
  qed
qed

lemma on_axis_unat:
  "on_axis (a, b, st) x \<longleftrightarrow>
     unat a \<le> unat x \<and> unat x < unat b \<and> (unat x - unat a) mod unat st = 0"
proof (cases "a \<le> x")
  case True
  then have "unat (x - a) = unat x - unat a" by (rule unat_sub)
  then have "(x - a) mod st = 0 \<longleftrightarrow> (unat x - unat a) mod unat st = 0"
    by (simp add: unat_eq_0 [symmetric] unat_mod)
  then show ?thesis
    by (simp add: on_axis_def word_le_nat_alt word_less_nat_alt)
next
  case False
  then show ?thesis by (simp add: on_axis_def word_le_nat_alt)
qed

lemma span_unat: "x \<in> span (a, b, st) \<longleftrightarrow> unat a \<le> unat x \<and> unat x < unat b"
  by (simp add: span_def word_le_nat_alt word_less_nat_alt)

text \<open>
  The tile with index \<open>idx\<close> below the tile count, read as natural numbers, when
  \<open>end + step * tile_size\<close> does not wrap.
\<close>

lemma tile_range_unat:
  fixes start :: size_t
  assumes se: "start < end" and st: "step \<noteq> 0" and ts: "ts \<noteq> 0"
    and room: "unat end + unat step * unat ts < 2 ^ 64"
    and idx: "idx < RoundUp (1 + (end - start - 1) div step) ts"
  shows "\<exists>a b. tile_range start end step (step * ts) idx = (a, b, step)
     \<and> unat a = unat start + unat idx * (unat step * unat ts)
     \<and> unat b = min (unat end) (unat start + unat idx * (unat step * unat ts)
                                  + unat step * unat ts)"
proof -
  define s e w j where "s = unat start" and "e = unat end"
    and "w = unat step * unat ts" and "j = unat idx"
  have st': "0 < unat step" and ts': "0 < unat ts"
    using st ts by (simp_all add: unat_gt_0)
  have se': "s < e" using se by (simp add: s_def e_def word_less_nat_alt)
  have "j < ceil_div (1 + (e - s - 1) div unat step) (unat ts)"
    using idx unfolding word_less_nat_alt unat_RoundUp [OF ts] unat_items [OF se st]
    by (simp add: j_def s_def e_def)
  then have below: "s + j * w < e"
    unfolding w_def using st' ts' se' by (intro tile_start_bound)
  have room': "e + w < 2 ^ 64" using room by (simp add: e_def w_def)
  have w: "unat (step * ts) = w"
    unfolding unat_mult_mod w_def using room' by (intro mod_less) (simp add: w_def)
  have "j * w < 2 ^ 64" using below room' by simp
  then have "(j * w) mod 2 ^ 64 = j * w" by (rule mod_less)
  then have jw: "unat (idx * (step * ts)) = j * w"
    using unat_mult_mod [of idx "step * ts"] by (simp only: w j_def)
  have "unat start + unat (idx * (step * ts)) < 2 ^ LENGTH(64)"
    using below room' by (simp add: jw s_def)
  then have "unat (start + idx * (step * ts)) = unat start + unat (idx * (step * ts))"
    by (simp only: unat_add_lem)
  then have a: "unat (start + idx * (step * ts)) = s + j * w"
    by (simp only: jw s_def)
  have "unat (start + idx * (step * ts)) + unat (step * ts) < 2 ^ LENGTH(64)"
    using below room' by (simp add: a w)
  then have "unat (start + idx * (step * ts) + step * ts)
      = unat (start + idx * (step * ts)) + unat (step * ts)"
    by (simp only: unat_add_lem)
  then have a': "unat (start + idx * (step * ts) + step * ts) = s + j * w + w"
    by (simp only: a w)
  have mn: "unat (min x y) = min (unat x) (unat y)" for x y :: size_t
    by (simp add: min_def word_le_nat_alt)
  have A: "unat (start + idx * (step * ts)) = unat start + unat idx * (unat step * unat ts)"
    using a unfolding s_def j_def w_def .
  have B: "unat (min end (start + idx * (step * ts) + step * ts))
      = min (unat end) (unat start + unat idx * (unat step * unat ts) + unat step * unat ts)"
    unfolding mn using a' unfolding s_def j_def w_def by simp
  show ?thesis
    unfolding tile_range_def Let_def using A B by blast
qed

lemma axis_tile_subset:
  fixes start :: size_t
  assumes se: "start < end" and st: "step \<noteq> 0" and ts: "ts \<noteq> 0"
    and room: "unat end + unat step * unat ts < 2 ^ 64"
    and idx: "idx < RoundUp (1 + (end - start - 1) div step) ts"
  shows "on_axis (tile_range start end step (step * ts) idx) x \<Longrightarrow> on_axis (start, end, step) x"
    and "span (tile_range start end step (step * ts) idx) \<subseteq> span (start, end, step)"
proof -
  from tile_range_unat [OF assms] obtain a b where
    t: "tile_range start end step (step * ts) idx = (a, b, step)"
    and a: "unat a = unat start + unat idx * (unat step * unat ts)"
    and b: "unat b = min (unat end) (unat a + unat step * unat ts)"
    by auto
  show "on_axis (start, end, step) x" if "on_axis (tile_range start end step (step * ts) idx) x"
  proof -
    from that have x: "unat a \<le> unat x" "unat x < unat b" "(unat x - unat a) mod unat step = 0"
      unfolding t on_axis_unat by simp_all
    have "unat x - unat start = (unat x - unat a) + unat idx * unat ts * unat step"
      using x(1) a by (simp add: ac_simps)
    then have "(unat x - unat start) mod unat step = (unat x - unat a) mod unat step"
      by (simp only: mod_mult_self1)
    with x a b show ?thesis unfolding on_axis_unat by simp
  qed
  show "span (tile_range start end step (step * ts) idx) \<subseteq> span (start, end, step)"
    unfolding t using a b by (auto simp add: span_unat)
qed

lemma axis_unique_tile:
  fixes start :: size_t
  assumes se: "start < end" and st: "step \<noteq> 0" and ts: "ts \<noteq> 0"
    and room: "unat end + unat step * unat ts < 2 ^ 64"
    and x: "on_axis (start, end, step) x"
  shows "\<exists>j. j < RoundUp (1 + (end - start - 1) div step) ts
    \<and> (\<forall>idx. idx < RoundUp (1 + (end - start - 1) div step) ts \<longrightarrow>
          (on_axis (tile_range start end step (step * ts) idx) x \<longleftrightarrow> idx = j))"
proof -
  define tc where "tc = RoundUp (1 + (end - start - 1) div step) ts"
  define n where "n = (unat x - unat start) div (unat step * unat ts)"
  have st': "0 < unat step" and ts': "0 < unat ts"
    using st ts by (simp_all add: unat_gt_0)
  from x have x': "unat start \<le> unat x" "unat x < unat end"
      "(unat x - unat start) mod unat step = 0"
    unfolding on_axis_unat by simp_all
  have utc: "unat tc = ceil_div (1 + (unat end - unat start - 1) div unat step) (unat ts)"
    unfolding tc_def unat_RoundUp [OF ts] unat_items [OF se st] ..
  have n: "n < unat tc"
    unfolding n_def utc using st' ts' x'(1,2) by (rule tile_index_bound)
  then have nsmall: "n < 2 ^ 64"
    using unsigned_less [of tc, where ?'a = nat] by simp
  define j :: size_t where "j = of_nat n"
  have uj: "unat j = n" unfolding j_def using nsmall by (rule unat_of_nat_small)
  have j: "j < tc" using n by (simp add: word_less_nat_alt uj)
  have "on_axis (tile_range start end step (step * ts) idx) x \<longleftrightarrow> idx = j" if "idx < tc" for idx
  proof -
    from tile_range_unat [OF se st ts room that [unfolded tc_def]] obtain a b where
      t: "tile_range start end step (step * ts) idx = (a, b, step)"
      and a: "unat a = unat start + unat idx * (unat step * unat ts)"
      and b: "unat b = min (unat end) (unat a + unat step * unat ts)"
      by auto
    have "on_axis (a, b, step) x \<longleftrightarrow> unat idx = n"
      unfolding on_axis_unat a b n_def
      using st' ts' x' by (rule in_tile_iff)
    also have "\<dots> \<longleftrightarrow> idx = j"
      using uj by (auto simp add: word_unat_eq_iff)
    finally show ?thesis unfolding t .
  qed
  with j show ?thesis unfolding tc_def by blast
qed

lemma axis_span_tile:
  fixes start :: size_t
  assumes se: "start < end" and st: "step \<noteq> 0" and ts: "ts \<noteq> 0"
    and room: "unat end + unat step * unat ts < 2 ^ 64"
    and x: "x \<in> span (start, end, step)"
  shows "\<exists>j. j < RoundUp (1 + (end - start - 1) div step) ts
    \<and> x \<in> span (tile_range start end step (step * ts) j)"
proof -
  define tc where "tc = RoundUp (1 + (end - start - 1) div step) ts"
  define w where "w = unat step * unat ts"
  define n where "n = (unat x - unat start) div w"
  have st': "0 < unat step" and ts': "0 < unat ts"
    using st ts by (simp_all add: unat_gt_0)
  have w: "0 < w" using st' ts' by (simp add: w_def)
  from x have x': "unat start \<le> unat x" "unat x < unat end"
    unfolding span_unat by simp_all
  have utc: "unat tc = ceil_div (1 + (unat end - unat start - 1) div unat step) (unat ts)"
    unfolding tc_def unat_RoundUp [OF ts] unat_items [OF se st] ..
  have n: "n < unat tc"
    unfolding n_def w_def utc using st' ts' x'(1,2) by (rule tile_index_bound)
  then have nsmall: "n < 2 ^ 64"
    using unsigned_less [of tc, where ?'a = nat] by simp
  define j :: size_t where "j = of_nat n"
  have uj: "unat j = n" unfolding j_def using nsmall by (rule unat_of_nat_small)
  have j: "j < tc" using n by (simp add: word_less_nat_alt uj)
  from tile_range_unat [OF se st ts room j [unfolded tc_def]] obtain a b where
    t: "tile_range start end step (step * ts) j = (a, b, step)"
    and a: "unat a = unat start + n * w"
    and b: "unat b = min (unat end) (unat a + w)"
    unfolding uj w_def by auto
  have 1: "n * w \<le> unat x - unat start" unfolding n_def by simp
  have "unat x - unat start = n * w + (unat x - unat start) mod w" unfolding n_def by simp
  moreover have "(unat x - unat start) mod w < w" using w by simp
  ultimately have 2: "unat x - unat start < n * w + w" by linarith
  have "x \<in> span (tile_range start end step (step * ts) j)"
    unfolding t span_unat a b using 1 2 x' by auto
  with j show ?thesis unfolding tc_def by blast
qed

lemma RoundUp_pos:
  fixes start :: size_t
  assumes "start < end" "step \<noteq> 0" "ts \<noteq> 0"
  shows "0 < RoundUp (1 + (end - start - 1) div step) ts"
proof -
  have "0 < unat ts" using assms(3) by (simp add: unat_gt_0)
  then have "0 < ceil_div (1 + (unat end - unat start - 1) div unat step) (unat ts)"
    by (rule ceil_div_pos) simp
  then show ?thesis
    unfolding word_less_nat_alt unat_RoundUp [OF assms(3)] unat_items [OF assms(1,2)] by simp
qed

subsection \<open>The tile index and its parts\<close>

lemma index_parts:
  fixes tc0 tc1 :: size_t
  assumes prod: "unat tc0 * unat tc1 < 2 ^ 64" and idx: "idx < tc0 * tc1"
  shows "idx div tc1 < tc0" and "idx - idx div tc1 * tc1 < tc1"
proof -
  have m: "unat (tc0 * tc1) = unat tc0 * unat tc1"
    unfolding unat_mult_mod using prod by (rule mod_less)
  have i: "unat idx < unat tc0 * unat tc1"
    using idx by (simp add: word_less_nat_alt m)
  then have pos: "0 < unat tc1" by (cases "unat tc1") simp_all
  have "unat idx div unat tc1 < unat tc0"
    using i pos by (simp add: less_mult_imp_div_less)
  then show "idx div tc1 < tc0"
    by (simp add: word_less_nat_alt unat_div)
  have "idx div tc1 * tc1 + idx mod tc1 = idx"
    by (rule div_mult_mod_eq)
  then have "idx - idx div tc1 * tc1 = idx mod tc1"
    by (metis add_diff_cancel_left')
  moreover have "unat (idx mod tc1) < unat tc1"
    unfolding unat_mod using pos by simp
  ultimately show "idx - idx div tc1 * tc1 < tc1"
    by (simp add: word_less_nat_alt)
qed

lemma index_of_parts:
  fixes tc0 tc1 :: size_t
  assumes prod: "unat tc0 * unat tc1 < 2 ^ 64" and j0: "j0 < tc0" and j1: "j1 < tc1"
  shows "j0 * tc1 + j1 < tc0 * tc1"
    and "(j0 * tc1 + j1) div tc1 = j0"
    and "(j0 * tc1 + j1) - (j0 * tc1 + j1) div tc1 * tc1 = j1"
proof -
  have m: "unat (tc0 * tc1) = unat tc0 * unat tc1"
    unfolding unat_mult_mod using prod by (rule mod_less)
  have u0: "unat j0 < unat tc0" and u1: "unat j1 < unat tc1"
    using j0 j1 by (simp_all add: word_less_nat_alt)
  have "unat j0 * unat tc1 + unat j1 < (unat j0 + 1) * unat tc1"
    using u1 by simp
  also have "\<dots> \<le> unat tc0 * unat tc1"
    using u0 by (intro mult_le_mono1) simp
  finally have lt: "unat j0 * unat tc1 + unat j1 < unat tc0 * unat tc1" .
  then have small: "unat j0 * unat tc1 + unat j1 < 2 ^ 64" using prod by simp
  then have "unat j0 * unat tc1 < 2 ^ 64" by simp
  then have "(unat j0 * unat tc1) mod 2 ^ 64 = unat j0 * unat tc1" by (rule mod_less)
  then have p: "unat (j0 * tc1) = unat j0 * unat tc1"
    using unat_mult_mod [of j0 tc1] by simp
  have "unat (j0 * tc1) + unat j1 < 2 ^ LENGTH(64)"
    using small by (simp add: p)
  then have "unat (j0 * tc1 + j1) = unat (j0 * tc1) + unat j1"
    by (simp only: unat_add_lem)
  then have s: "unat (j0 * tc1 + j1) = unat j0 * unat tc1 + unat j1"
    by (simp only: p)
  show "j0 * tc1 + j1 < tc0 * tc1"
    using lt by (simp add: word_less_nat_alt s m)
  have "(unat j0 * unat tc1 + unat j1) div unat tc1 = unat j0"
    using u1 by simp
  then have "unat ((j0 * tc1 + j1) div tc1) = unat j0"
    by (simp add: unat_div s)
  then show d: "(j0 * tc1 + j1) div tc1 = j0"
    by (simp add: word_unat_eq_iff)
  show "(j0 * tc1 + j1) - (j0 * tc1 + j1) div tc1 * tc1 = j1"
    unfolding d by simp
qed

lemma index_from_parts:
  fixes idx :: size_t
  shows "idx = idx div tc1 * tc1 + (idx - idx div tc1 * tc1)"
  by simp

subsection \<open>The parallel path\<close>

lemma tile_size_1d_nonzero:
  "tile_size_1d d items tile_size = Inr ts \<Longrightarrow> ts \<noteq> 0"
  by (auto simp add: tile_size_1d_def max_def split: if_splits)

lemma Compute1D_parallel:
  assumes "Compute1D p start end step tile_size cost = Inr (RunTiles f n)"
  shows "start < end \<and> step \<noteq> 0
    \<and> (\<exists>ts. tile_size_1d (of_nat (default_tile_count p)) (1 + (end - start - 1) div step)
              tile_size = Inr ts
          \<and> ts \<noteq> 0
          \<and> f = tile_range start end step (step * ts)
          \<and> n = RoundUp (1 + (end - start - 1) div step) ts)"
  using assms
  by (auto simp add: Compute1D_def items_of_def Let_def tile_size_1d_nonzero not_le
      split: if_splits sum.splits)

lemma Compute1D_cover:
  assumes run: "Compute1D p start end step tile_size cost = Inr (RunTiles f n)"
    and size: "tile_size_1d (of_nat (default_tile_count p)) (1 + (end - start - 1) div step)
              tile_size = Inr ts"
    and room: "unat end + unat step * unat ts < 2 ^ 64"
  shows "(\<forall>x. on_axis (start, end, step) x \<longrightarrow> (\<exists>!idx. idx < n \<and> on_axis (f idx) x))
    \<and> (\<forall>idx x. idx < n \<and> on_axis (f idx) x \<longrightarrow> on_axis (start, end, step) x)
    \<and> (\<Union>idx \<in> {..<n}. span (f idx)) = span (start, end, step)"
proof -
  from Compute1D_parallel [OF run] size have se: "start < end" and st: "step \<noteq> 0"
    and ts: "ts \<noteq> 0" and f: "f = tile_range start end step (step * ts)"
    and n: "n = RoundUp (1 + (end - start - 1) div step) ts"
    by auto
  have 1: "\<exists>!idx. idx < n \<and> on_axis (f idx) x" if "on_axis (start, end, step) x" for x
    using axis_unique_tile [OF se st ts room that] unfolding f n by blast
  have 2: "on_axis (start, end, step) x" if "idx < n" "on_axis (f idx) x" for idx x
    using that axis_tile_subset(1) [OF se st ts room] unfolding f n by blast
  have 3: "(\<Union>idx \<in> {..<n}. span (f idx)) = span (start, end, step)"
  proof (intro equalityI subsetI)
    fix x assume "x \<in> (\<Union>idx \<in> {..<n}. span (f idx))"
    then obtain idx where "idx < n" "x \<in> span (f idx)" by auto
    then show "x \<in> span (start, end, step)"
      using axis_tile_subset(2) [OF se st ts room, of idx] unfolding f n by blast
  next
    fix x assume "x \<in> span (start, end, step)"
    from axis_span_tile [OF se st ts room this] obtain j where "j < n" "x \<in> span (f j)"
      unfolding f n by blast
    then show "x \<in> (\<Union>idx \<in> {..<n}. span (f idx))" by blast
  qed
  from 1 2 3 show ?thesis by blast
qed

lemma product_unique:
  fixes tc0 tc1 :: size_t
  assumes prod: "unat tc0 * unat tc1 < 2 ^ 64"
    and u0: "\<exists>j. j < tc0 \<and> (\<forall>i. i < tc0 \<longrightarrow> (P0 i \<longleftrightarrow> i = j))"
    and u1: "\<exists>j. j < tc1 \<and> (\<forall>i. i < tc1 \<longrightarrow> (P1 i \<longleftrightarrow> i = j))"
  shows "\<exists>j. j < tc0 * tc1
    \<and> (\<forall>i. i < tc0 * tc1 \<longrightarrow> (P0 (i div tc1) \<and> P1 (i - i div tc1 * tc1) \<longleftrightarrow> i = j))"
proof -
  from u0 obtain j0 where j0: "j0 < tc0" "\<And>i. i < tc0 \<Longrightarrow> P0 i \<longleftrightarrow> i = j0" by blast
  from u1 obtain j1 where j1: "j1 < tc1" "\<And>i. i < tc1 \<Longrightarrow> P1 i \<longleftrightarrow> i = j1" by blast
  note parts = index_of_parts [OF prod j0(1) j1(1)]
  have "P0 (i div tc1) \<and> P1 (i - i div tc1 * tc1) \<longleftrightarrow> i = j0 * tc1 + j1"
    if i: "i < tc0 * tc1" for i
  proof
    assume "P0 (i div tc1) \<and> P1 (i - i div tc1 * tc1)"
    with j0(2) j1(2) index_parts [OF prod i]
    have a: "i div tc1 = j0" and b: "i - i div tc1 * tc1 = j1" by blast+
    from b have "i = j1 + i div tc1 * tc1" by (simp only: diff_eq_eq)
    then show "i = j0 * tc1 + j1" unfolding a by (simp only: add.commute)
  next
    assume "i = j0 * tc1 + j1"
    with parts(2,3) j0 j1 show "P0 (i div tc1) \<and> P1 (i - i div tc1 * tc1)" by simp
  qed
  with parts(1) show ?thesis by blast
qed

lemma product_left:
  fixes tc0 tc1 :: size_t
  assumes prod: "unat tc0 * unat tc1 < 2 ^ 64" and j: "j < tc0" "Q j" and pos: "0 < tc1"
  shows "\<exists>i. i < tc0 * tc1 \<and> Q (i div tc1)"
  using index_of_parts(1,2) [OF prod j(1) pos] j(2) by (intro exI [of _ "j * tc1 + 0"]) simp

lemma product_right:
  fixes tc0 tc1 :: size_t
  assumes prod: "unat tc0 * unat tc1 < 2 ^ 64" and j: "j < tc1" "Q j" and pos: "0 < tc0"
  shows "\<exists>i. i < tc0 * tc1 \<and> Q (i - i div tc1 * tc1)"
  using index_of_parts(1,3) [OF prod pos j(1)] j(2) by (intro exI [of _ "0 * tc1 + j"]) simp

lemma items_nonzero:
  fixes start :: size_t
  assumes "start < end" "step \<noteq> 0"
  shows "1 + (end - start - 1) div step \<noteq> 0"
  using unat_items [OF assms] by (metis add_is_0 unat_0 zero_neq_one)

lemma div_nonzero:
  fixes d :: size_t
  assumes "d \<le> i" "d \<noteq> 0"
  shows "i div d \<noteq> 0"
proof -
  have "0 < unat d" "unat d \<le> unat i"
    using assms by (simp_all add: unat_gt_0 word_le_nat_alt)
  then have "0 < unat i div unat d" by (simp add: div_greater_zero_iff)
  then show ?thesis by (metis unat_div unat_0 less_numeral_extra(3))
qed

lemma max_one_nonzero: "max 1 (x :: size_t) \<noteq> 0"
  by (auto simp add: max_def)

lemma tile_size_2d_nonzero:
  assumes "tile_size_2d d items0 items1 tile_size0 tile_size1 = Inr (ts0, ts1)"
    and "items1 \<noteq> 0"
  shows "ts0 \<noteq> 0 \<and> ts1 \<noteq> 0"
  using assms div_nonzero [of d items0] max_one_nonzero
  by (auto simp add: tile_size_2d_def split: if_splits)

lemma tile_size_3d_nonzero:
  assumes "tile_size_3d d items0 items1 items2 tile_size0 tile_size1 tile_size2
      = Inr (ts0, ts1, ts2)"
    and "items1 \<noteq> 0" "items2 \<noteq> 0"
  shows "ts0 \<noteq> 0 \<and> ts1 \<noteq> 0 \<and> ts2 \<noteq> 0"
proof -
  have "d \<noteq> 0" if "\<not> d \<le> items0" using that by auto
  then show ?thesis
    using assms div_nonzero [of d items0] div_nonzero [of d "items1 * items0"] max_one_nonzero
    by (auto simp add: tile_size_3d_def Let_def split: if_splits)
qed

lemma Compute2D_parallel:
  assumes "Compute2D p start0 end0 step0 start1 end1 step1 tile_size0 tile_size1 cost
    = Inr (RunTiles f n)"
  shows "start0 < end0 \<and> start1 < end1 \<and> step0 \<noteq> 0 \<and> step1 \<noteq> 0
    \<and> (\<exists>ts0 ts1.
          tile_size_2d (of_nat (default_tile_count p)) (1 + (end0 - start0 - 1) div step0)
              (1 + (end1 - start1 - 1) div step1) tile_size0 tile_size1 = Inr (ts0, ts1)
          \<and> f = (\<lambda>idx.
                (tile_range start0 end0 step0 (step0 * ts0)
                   (idx div RoundUp (1 + (end1 - start1 - 1) div step1) ts1),
                 tile_range start1 end1 step1 (step1 * ts1)
                   (idx - idx div RoundUp (1 + (end1 - start1 - 1) div step1) ts1
                          * RoundUp (1 + (end1 - start1 - 1) div step1) ts1)))
          \<and> n = RoundUp (1 + (end0 - start0 - 1) div step0) ts0
                * RoundUp (1 + (end1 - start1 - 1) div step1) ts1)"
  using assms
  by (auto simp add: Compute2D_def items_of_def Let_def not_le
      split: if_splits sum.splits prod.splits)

lemma Compute3D_parallel:
  assumes "Compute3D p start0 end0 step0 start1 end1 step1 start2 end2 step2
      tile_size0 tile_size1 tile_size2 cost = Inr (RunTiles f n)"
  shows "start0 < end0 \<and> start1 < end1 \<and> start2 < end1
    \<and> step0 \<noteq> 0 \<and> step1 \<noteq> 0 \<and> step2 \<noteq> 0
    \<and> (\<exists>ts0 ts1 ts2.
          tile_size_3d (of_nat (default_tile_count p)) (1 + (end0 - start0 - 1) div step0)
              (1 + (end1 - start1 - 1) div step1) (1 + (end2 - start2 - 1) div step2)
              tile_size0 tile_size1 tile_size2 = Inr (ts0, ts1, ts2)
          \<and> f = (\<lambda>idx.
                (tile_range start0 end0 step0 (step0 * ts0)
                   (idx div (RoundUp (1 + (end1 - start1 - 1) div step1) ts1
                             * RoundUp (1 + (end2 - start2 - 1) div step2) ts2)),
                 tile_range start1 end1 step1 (step1 * ts1)
                   ((idx - idx div (RoundUp (1 + (end1 - start1 - 1) div step1) ts1
                             * RoundUp (1 + (end2 - start2 - 1) div step2) ts2)
                           * (RoundUp (1 + (end1 - start1 - 1) div step1) ts1
                             * RoundUp (1 + (end2 - start2 - 1) div step2) ts2))
                     div RoundUp (1 + (end2 - start2 - 1) div step2) ts2),
                 tile_range start2 end2 step2 (step2 * ts2)
                   ((idx - idx div (RoundUp (1 + (end1 - start1 - 1) div step1) ts1
                             * RoundUp (1 + (end2 - start2 - 1) div step2) ts2)
                           * (RoundUp (1 + (end1 - start1 - 1) div step1) ts1
                             * RoundUp (1 + (end2 - start2 - 1) div step2) ts2))
                    - (idx - idx div (RoundUp (1 + (end1 - start1 - 1) div step1) ts1
                             * RoundUp (1 + (end2 - start2 - 1) div step2) ts2)
                           * (RoundUp (1 + (end1 - start1 - 1) div step1) ts1
                             * RoundUp (1 + (end2 - start2 - 1) div step2) ts2))
                     div RoundUp (1 + (end2 - start2 - 1) div step2) ts2
                     * RoundUp (1 + (end2 - start2 - 1) div step2) ts2)))
          \<and> n = RoundUp (1 + (end0 - start0 - 1) div step0) ts0
                * (RoundUp (1 + (end1 - start1 - 1) div step1) ts1
                   * RoundUp (1 + (end2 - start2 - 1) div step2) ts2))"
  using assms
  by (auto simp add: Compute3D_def items_of_def Let_def not_le
      split: if_splits sum.splits prod.splits)

lemma Compute2D_cover:
  assumes run: "Compute2D p start0 end0 step0 start1 end1 step1 tile_size0 tile_size1 cost
      = Inr (RunTiles f n)"
    and size: "tile_size_2d (of_nat (default_tile_count p)) (1 + (end0 - start0 - 1) div step0)
        (1 + (end1 - start1 - 1) div step1) tile_size0 tile_size1 = Inr (ts0, ts1)"
    and room0: "unat end0 + unat step0 * unat ts0 < 2 ^ 64"
    and room1: "unat end1 + unat step1 * unat ts1 < 2 ^ 64"
    and prod: "unat (RoundUp (1 + (end0 - start0 - 1) div step0) ts0)
             * unat (RoundUp (1 + (end1 - start1 - 1) div step1) ts1) < 2 ^ 64"
  shows "(\<forall>x0 x1. on_axis (start0, end0, step0) x0 \<and> on_axis (start1, end1, step1) x1 \<longrightarrow>
            (\<exists>!idx. idx < n \<and> on_axis (fst (f idx)) x0 \<and> on_axis (snd (f idx)) x1))
    \<and> (\<forall>idx x0 x1. idx < n \<and> on_axis (fst (f idx)) x0 \<and> on_axis (snd (f idx)) x1 \<longrightarrow>
            on_axis (start0, end0, step0) x0 \<and> on_axis (start1, end1, step1) x1)
    \<and> (\<Union>idx \<in> {..<n}. span (fst (f idx))) = span (start0, end0, step0)
    \<and> (\<Union>idx \<in> {..<n}. span (snd (f idx))) = span (start1, end1, step1)"
proof -
  define tc0 where "tc0 = RoundUp (1 + (end0 - start0 - 1) div step0) ts0"
  define tc1 where "tc1 = RoundUp (1 + (end1 - start1 - 1) div step1) ts1"
  define T0 where "T0 = tile_range start0 end0 step0 (step0 * ts0)"
  define T1 where "T1 = tile_range start1 end1 step1 (step1 * ts1)"
  from Compute2D_parallel [OF run] size
  have se0: "start0 < end0" and se1: "start1 < end1"
    and st0: "step0 \<noteq> 0" and st1: "step1 \<noteq> 0"
    and f: "f = (\<lambda>idx. (T0 (idx div tc1), T1 (idx - idx div tc1 * tc1)))"
    and n: "n = tc0 * tc1"
    unfolding tc0_def tc1_def T0_def T1_def by auto
  from tile_size_2d_nonzero [OF size items_nonzero [OF se1 st1]]
  have ts0: "ts0 \<noteq> 0" and ts1: "ts1 \<noteq> 0" by auto
  have prod': "unat tc0 * unat tc1 < 2 ^ 64" using prod unfolding tc0_def tc1_def .
  have pos0: "0 < tc0" unfolding tc0_def using se0 st0 ts0 by (rule RoundUp_pos)
  have pos1: "0 < tc1" unfolding tc1_def using se1 st1 ts1 by (rule RoundUp_pos)
  note sub0 = axis_tile_subset [OF se0 st0 ts0 room0, folded tc0_def T0_def]
  note sub1 = axis_tile_subset [OF se1 st1 ts1 room1, folded tc1_def T1_def]
  note uni0 = axis_unique_tile [OF se0 st0 ts0 room0, folded tc0_def T0_def]
  note uni1 = axis_unique_tile [OF se1 st1 ts1 room1, folded tc1_def T1_def]
  note spn0 = axis_span_tile [OF se0 st0 ts0 room0, folded tc0_def T0_def]
  note spn1 = axis_span_tile [OF se1 st1 ts1 room1, folded tc1_def T1_def]
  have 1: "\<exists>!idx. idx < n \<and> on_axis (fst (f idx)) x0 \<and> on_axis (snd (f idx)) x1"
    if "on_axis (start0, end0, step0) x0" "on_axis (start1, end1, step1) x1" for x0 x1
  proof -
    from product_unique [OF prod' uni0 [OF that(1)] uni1 [OF that(2)]]
    obtain j where "j < n"
      "\<And>i. i < n \<Longrightarrow> on_axis (fst (f i)) x0 \<and> on_axis (snd (f i)) x1 \<longleftrightarrow> i = j"
      unfolding f n by auto
    then show ?thesis by blast
  qed
  have 2: "on_axis (start0, end0, step0) x0 \<and> on_axis (start1, end1, step1) x1"
    if "idx < n" "on_axis (fst (f idx)) x0" "on_axis (snd (f idx)) x1" for idx x0 x1
    using that index_parts [OF prod' that(1) [unfolded n]] sub0(1) sub1(1)
    unfolding f by simp
  have 3: "(\<Union>idx \<in> {..<n}. span (fst (f idx))) = span (start0, end0, step0)"
  proof (intro equalityI subsetI)
    fix x assume "x \<in> (\<Union>idx \<in> {..<n}. span (fst (f idx)))"
    then obtain idx where i: "idx < n" "x \<in> span (T0 (idx div tc1))"
      unfolding f by auto
    from sub0(2) [OF index_parts(1) [OF prod' i(1) [unfolded n]]] i(2)
    show "x \<in> span (start0, end0, step0)" by blast
  next
    fix x assume "x \<in> span (start0, end0, step0)"
    from spn0 [OF this] obtain j where "j < tc0" "x \<in> span (T0 j)" by blast
    from product_left [OF prod', of j "\<lambda>j. x \<in> span (T0 j)", OF this pos1]
    show "x \<in> (\<Union>idx \<in> {..<n}. span (fst (f idx)))"
      unfolding f n by auto
  qed
  have 4: "(\<Union>idx \<in> {..<n}. span (snd (f idx))) = span (start1, end1, step1)"
  proof (intro equalityI subsetI)
    fix x assume "x \<in> (\<Union>idx \<in> {..<n}. span (snd (f idx)))"
    then obtain idx where i: "idx < n" "x \<in> span (T1 (idx - idx div tc1 * tc1))"
      unfolding f by auto
    from sub1(2) [OF index_parts(2) [OF prod' i(1) [unfolded n]]] i(2)
    show "x \<in> span (start1, end1, step1)" by blast
  next
    fix x assume "x \<in> span (start1, end1, step1)"
    from spn1 [OF this] obtain j where "j < tc1" "x \<in> span (T1 j)" by blast
    from product_right [OF prod', of j "\<lambda>j. x \<in> span (T1 j)", OF this pos0]
    show "x \<in> (\<Union>idx \<in> {..<n}. span (snd (f idx)))"
      unfolding f n by auto
  qed
  from 1 2 3 4 show ?thesis by blast
qed

lemma unique_below:
  fixes j n :: size_t
  assumes "\<exists>j. j < n \<and> (\<forall>i. i < n \<longrightarrow> (Q i \<longleftrightarrow> i = j))"
  shows "\<exists>!i. i < n \<and> Q i"
  using assms by blast

lemma Compute3D_cover:
  assumes run: "Compute3D p start0 end0 step0 start1 end1 step1 start2 end2 step2
      tile_size0 tile_size1 tile_size2 cost = Inr (RunTiles f n)"
    and se2: "start2 < end2"
    and size: "tile_size_3d (of_nat (default_tile_count p)) (1 + (end0 - start0 - 1) div step0)
        (1 + (end1 - start1 - 1) div step1) (1 + (end2 - start2 - 1) div step2)
        tile_size0 tile_size1 tile_size2 = Inr (ts0, ts1, ts2)"
    and room0: "unat end0 + unat step0 * unat ts0 < 2 ^ 64"
    and room1: "unat end1 + unat step1 * unat ts1 < 2 ^ 64"
    and room2: "unat end2 + unat step2 * unat ts2 < 2 ^ 64"
    and prod: "unat (RoundUp (1 + (end0 - start0 - 1) div step0) ts0)
             * unat (RoundUp (1 + (end1 - start1 - 1) div step1) ts1)
             * unat (RoundUp (1 + (end2 - start2 - 1) div step2) ts2) < 2 ^ 64"
  shows "(\<forall>x0 x1 x2. on_axis (start0, end0, step0) x0 \<and> on_axis (start1, end1, step1) x1
              \<and> on_axis (start2, end2, step2) x2 \<longrightarrow>
            (\<exists>!idx. idx < n \<and> on_axis (fst (f idx)) x0 \<and> on_axis (fst (snd (f idx))) x1
                \<and> on_axis (snd (snd (f idx))) x2))
    \<and> (\<forall>idx x0 x1 x2. idx < n \<and> on_axis (fst (f idx)) x0 \<and> on_axis (fst (snd (f idx))) x1
              \<and> on_axis (snd (snd (f idx))) x2 \<longrightarrow>
            on_axis (start0, end0, step0) x0 \<and> on_axis (start1, end1, step1) x1
              \<and> on_axis (start2, end2, step2) x2)
    \<and> (\<Union>idx \<in> {..<n}. span (fst (f idx))) = span (start0, end0, step0)
    \<and> (\<Union>idx \<in> {..<n}. span (fst (snd (f idx)))) = span (start1, end1, step1)
    \<and> (\<Union>idx \<in> {..<n}. span (snd (snd (f idx)))) = span (start2, end2, step2)"
proof -
  define tc0 where "tc0 = RoundUp (1 + (end0 - start0 - 1) div step0) ts0"
  define tc1 where "tc1 = RoundUp (1 + (end1 - start1 - 1) div step1) ts1"
  define tc2 where "tc2 = RoundUp (1 + (end2 - start2 - 1) div step2) ts2"
  define tc12 where "tc12 = tc1 * tc2"
  define T0 where "T0 = tile_range start0 end0 step0 (step0 * ts0)"
  define T1 where "T1 = tile_range start1 end1 step1 (step1 * ts1)"
  define T2 where "T2 = tile_range start2 end2 step2 (step2 * ts2)"
  define r where "r = (\<lambda>idx :: size_t. idx - idx div tc12 * tc12)"
  from Compute3D_parallel [OF run] size
  have se0: "start0 < end0" and se1: "start1 < end1"
    and st0: "step0 \<noteq> 0" and st1: "step1 \<noteq> 0" and st2: "step2 \<noteq> 0"
    and f: "f = (\<lambda>idx. (T0 (idx div tc12), T1 (r idx div tc2),
                        T2 (r idx - r idx div tc2 * tc2)))"
    and n: "n = tc0 * tc12"
    unfolding tc0_def tc1_def tc2_def tc12_def T0_def T1_def T2_def r_def by auto
  from tile_size_3d_nonzero [OF size items_nonzero [OF se1 st1] items_nonzero [OF se2 st2]]
  have ts0: "ts0 \<noteq> 0" and ts1: "ts1 \<noteq> 0" and ts2: "ts2 \<noteq> 0" by auto
  have pos0: "0 < tc0" unfolding tc0_def using se0 st0 ts0 by (rule RoundUp_pos)
  have pos1: "0 < tc1" unfolding tc1_def using se1 st1 ts1 by (rule RoundUp_pos)
  have pos2: "0 < tc2" unfolding tc2_def using se2 st2 ts2 by (rule RoundUp_pos)
  have p: "unat tc0 * (unat tc1 * unat tc2) < 2 ^ 64"
    using prod unfolding tc0_def tc1_def tc2_def by (simp only: mult.assoc)
  have "1 \<le> unat tc0" using pos0 by (simp add: word_less_nat_alt)
  then have "1 * (unat tc1 * unat tc2) \<le> unat tc0 * (unat tc1 * unat tc2)"
    by (rule mult_le_mono1)
  then have "unat tc1 * unat tc2 \<le> unat tc0 * (unat tc1 * unat tc2)"
    by (simp only: mult_1)
  from this p have prod12: "unat tc1 * unat tc2 < 2 ^ 64" by (rule le_less_trans)
  then have "(unat tc1 * unat tc2) mod 2 ^ 64 = unat tc1 * unat tc2" by (rule mod_less)
  then have u12: "unat tc12 = unat tc1 * unat tc2"
    unfolding tc12_def unat_mult_mod .
  have prod0: "unat tc0 * unat tc12 < 2 ^ 64" using p unfolding u12 .
  have pos12: "0 < tc12"
    using pos1 pos2 by (simp add: word_less_nat_alt u12)
  note sub0 = axis_tile_subset [OF se0 st0 ts0 room0, folded tc0_def T0_def]
  note sub1 = axis_tile_subset [OF se1 st1 ts1 room1, folded tc1_def T1_def]
  note sub2 = axis_tile_subset [OF se2 st2 ts2 room2, folded tc2_def T2_def]
  note uni0 = axis_unique_tile [OF se0 st0 ts0 room0, folded tc0_def T0_def]
  note uni1 = axis_unique_tile [OF se1 st1 ts1 room1, folded tc1_def T1_def]
  note uni2 = axis_unique_tile [OF se2 st2 ts2 room2, folded tc2_def T2_def]
  note spn0 = axis_span_tile [OF se0 st0 ts0 room0, folded tc0_def T0_def]
  note spn1 = axis_span_tile [OF se1 st1 ts1 room1, folded tc1_def T1_def]
  note spn2 = axis_span_tile [OF se2 st2 ts2 room2, folded tc2_def T2_def]
  have parts: "idx div tc12 < tc0" "r idx div tc2 < tc1" "r idx - r idx div tc2 * tc2 < tc2"
    if "idx < n" for idx
  proof -
    from index_parts [OF prod0 that [unfolded n]]
    have a: "idx div tc12 < tc0" and r: "r idx < tc1 * tc2"
      unfolding r_def tc12_def by simp_all
    from a show "idx div tc12 < tc0" .
    from index_parts [OF prod12 r]
    show "r idx div tc2 < tc1" "r idx - r idx div tc2 * tc2 < tc2" by simp_all
  qed
  have f0: "fst (f i) = T0 (i div tc12)" for i by (simp add: f)
  have f1: "fst (snd (f i)) = T1 ((i - i div tc12 * tc12) div tc2)" for i
    by (simp add: f r_def)
  have f2: "snd (snd (f i)) = T2 ((i - i div tc12 * tc12)
      - (i - i div tc12 * tc12) div tc2 * tc2)" for i
    by (simp add: f r_def)
  have 1: "\<exists>!idx. idx < n \<and> on_axis (fst (f idx)) x0 \<and> on_axis (fst (snd (f idx))) x1
                \<and> on_axis (snd (snd (f idx))) x2"
    if "on_axis (start0, end0, step0) x0" "on_axis (start1, end1, step1) x1"
      "on_axis (start2, end2, step2) x2" for x0 x1 x2
  proof -
    note u12 = product_unique [OF prod12 uni1 [OF that(2)] uni2 [OF that(3)],
        folded tc12_def]
    note u = product_unique [OF prod0 uni0 [OF that(1)] u12]
    show ?thesis
      unfolding f0 f1 f2 n by (rule unique_below) (rule u)
  qed
  have 2: "on_axis (start0, end0, step0) x0 \<and> on_axis (start1, end1, step1) x1
              \<and> on_axis (start2, end2, step2) x2"
    if "idx < n" "on_axis (fst (f idx)) x0" "on_axis (fst (snd (f idx))) x1"
      "on_axis (snd (snd (f idx))) x2" for idx x0 x1 x2
    using that(2-4) parts [OF that(1)] sub0(1) sub1(1) sub2(1)
    unfolding f0 f1 f2 r_def by blast
  have 3: "(\<Union>idx \<in> {..<n}. span (fst (f idx))) = span (start0, end0, step0)"
  proof (intro equalityI subsetI)
    fix x assume "x \<in> (\<Union>idx \<in> {..<n}. span (fst (f idx)))"
    then obtain idx where i: "idx < n" "x \<in> span (T0 (idx div tc12))"
      unfolding f0 by blast
    from sub0(2) [OF parts(1) [OF i(1)]] i(2)
    show "x \<in> span (start0, end0, step0)" by blast
  next
    fix x assume "x \<in> span (start0, end0, step0)"
    from spn0 [OF this] obtain j where "j < tc0" "x \<in> span (T0 j)" by blast
    from product_left [OF prod0, of j "\<lambda>j. x \<in> span (T0 j)", OF this pos12]
    show "x \<in> (\<Union>idx \<in> {..<n}. span (fst (f idx)))"
      unfolding f0 n by blast
  qed
  have 4: "(\<Union>idx \<in> {..<n}. span (fst (snd (f idx)))) = span (start1, end1, step1)"
  proof (intro equalityI subsetI)
    fix x assume "x \<in> (\<Union>idx \<in> {..<n}. span (fst (snd (f idx))))"
    then obtain idx where i: "idx < n" "x \<in> span (T1 (r idx div tc2))"
      unfolding f1 r_def by blast
    from sub1(2) [OF parts(2) [OF i(1)]] i(2)
    show "x \<in> span (start1, end1, step1)" by blast
  next
    fix x assume "x \<in> span (start1, end1, step1)"
    from spn1 [OF this] obtain j where "j < tc1" "x \<in> span (T1 j)" by blast
    from product_left [OF prod12, of j "\<lambda>j. x \<in> span (T1 j)", OF this pos2]
    obtain i12 where "i12 < tc12" "x \<in> span (T1 (i12 div tc2))"
      unfolding tc12_def by blast
    from product_right [OF prod0, of i12 "\<lambda>i. x \<in> span (T1 (i div tc2))", OF this pos0]
    show "x \<in> (\<Union>idx \<in> {..<n}. span (fst (snd (f idx))))"
      unfolding f1 n by blast
  qed
  have 5: "(\<Union>idx \<in> {..<n}. span (snd (snd (f idx)))) = span (start2, end2, step2)"
  proof (intro equalityI subsetI)
    fix x assume "x \<in> (\<Union>idx \<in> {..<n}. span (snd (snd (f idx))))"
    then obtain idx where i: "idx < n" "x \<in> span (T2 (r idx - r idx div tc2 * tc2))"
      unfolding f2 r_def by blast
    from sub2(2) [OF parts(3) [OF i(1)]] i(2)
    show "x \<in> span (start2, end2, step2)" by blast
  next
    fix x assume "x \<in> span (start2, end2, step2)"
    from spn2 [OF this] obtain j where "j < tc2" "x \<in> span (T2 j)" by blast
    from product_right [OF prod12, of j "\<lambda>j. x \<in> span (T2 j)", OF this pos1]
    obtain i12 where "i12 < tc12" "x \<in> span (T2 (i12 - i12 div tc2 * tc2))"
      unfolding tc12_def by blast
    from product_right [OF prod0, of i12 "\<lambda>i. x \<in> span (T2 (i - i div tc2 * tc2))",
        OF this pos0]
    show "x \<in> (\<Union>idx \<in> {..<n}. span (snd (snd (f idx))))"
      unfolding f2 n by blast
  qed
  show ?thesis
  proof (intro conjI allI impI)
    fix x0 x1 x2
    assume "on_axis (start0, end0, step0) x0 \<and> on_axis (start1, end1, step1) x1
              \<and> on_axis (start2, end2, step2) x2"
    then show "\<exists>!idx. idx < n \<and> on_axis (fst (f idx)) x0 \<and> on_axis (fst (snd (f idx))) x1
                \<and> on_axis (snd (snd (f idx))) x2"
      using 1 by blast
  next
    fix idx x0 x1 x2
    assume a: "idx < n \<and> on_axis (fst (f idx)) x0 \<and> on_axis (fst (snd (f idx))) x1
              \<and> on_axis (snd (snd (f idx))) x2"
    from a 2 [of idx x0 x1 x2] show "on_axis (start0, end0, step0) x0" by blast
    from a 2 [of idx x0 x1 x2] show "on_axis (start1, end1, step1) x1" by blast
    from a 2 [of idx x0 x1 x2] show "on_axis (start2, end2, step2) x2" by blast
  qed (fact 3 4 5)+
qed

lemma cover_inputs:
  "Compute1D (pool 4 4) 0 10 1 0 (- 1) = Inr (RunTiles (tile_range 0 10 1 2) 5)"
  "tile_size_1d (of_nat (default_tile_count (pool 4 4))) (1 + (10 - 0 - 1) div 1) 0 = Inr 2"
  "Compute2D (pool 4 8) 0 3 1 0 100 1 0 0 (- 1)
     = Inr (RunTiles (\<lambda>idx. (tile_range 0 3 1 1 (idx div 3),
                              tile_range 0 100 1 37 (idx - idx div 3 * 3))) 9)"
  "tile_size_2d (of_nat (default_tile_count (pool 4 8))) (1 + (3 - 0 - 1) div 1)
     (1 + (100 - 0 - 1) div 1) 0 0 = Inr (1, 37)"
  "Compute3D (pool 4 8) 0 3 1 0 2 1 0 100 1 0 0 0 (- 1)
     = Inr (RunTiles (\<lambda>idx. (tile_range 0 3 1 1 (idx div 4),
                              tile_range 0 2 1 1 ((idx - idx div 4 * 4) div 2),
                              tile_range 0 100 1 75
                                (idx - idx div 4 * 4 - (idx - idx div 4 * 4) div 2 * 2))) 12)"
  "tile_size_3d (of_nat (default_tile_count (pool 4 8))) (1 + (3 - 0 - 1) div 1)
     (1 + (2 - 0 - 1) div 1) (1 + (100 - 0 - 1) div 1) 0 0 0 = Inr (1, 1, 75)"
  by (simp_all add: Compute1D_def Compute2D_def Compute3D_def items_of_def pool_def cheap_def
      tile_size_1d_def tile_size_2d_def tile_size_3d_def RoundUp_def word_sle_eq Let_def)

lemma on_axis_examples:
  "on_axis (0, 10, 1) 7" "on_axis (0, 3, 1) 2" "on_axis (0, 100, 1) 99" "on_axis (0, 2, 1) 1"
  by (simp_all add: on_axis_def)



text \<open>
  C5, as stated, fails where the \<open>size_t\<close> arithmetic of the tile bounds wraps. With
  \<open>start = 0\<close>, \<open>end = 2^64 - 1\<close>, \<open>step = 1\<close> and \<open>tile_size = 2^63\<close> there are two
  tiles; for the second, \<open>tile_start + step_tile_size\<close> wraps to 0, so the tile is
  \<open>[2^63, 0)\<close>, and the index \<open>2^63\<close> of the iteration space lies in neither tile.
\<close>

theorem tiles_wrap:
  "Compute1D (pool 2 2) 0 18446744073709551615 1 9223372036854775808 (- 1)
     = Inr (RunTiles (tile_range 0 18446744073709551615 1 9223372036854775808) 2)
   \<and> tile_range 0 18446744073709551615 1 9223372036854775808 0
       = (0, 9223372036854775808, 1)
   \<and> tile_range 0 18446744073709551615 1 9223372036854775808 1
       = (9223372036854775808, 0, 1)
   \<and> on_axis (0, 18446744073709551615, 1) 9223372036854775808
   \<and> \<not> on_axis (0, 9223372036854775808, 1) 9223372036854775808
   \<and> \<not> on_axis (9223372036854775808, 0, 1) 9223372036854775808"
  by (simp add: Compute1D_def items_of_def pool_def cheap_def tile_size_1d_def RoundUp_def
      tile_range_def on_axis_def word_sle_eq)

text \<open>
  C5, amended. For a call of \<open>Compute1D\<close>, \<open>Compute2D\<close> or \<open>Compute3D\<close> that reaches
  \<open>Run\<close> (for \<open>Compute3D\<close> with a non-empty third range), with \<open>ts\<close> the tile sizes it
  settles on, when \<open>end + step * ts\<close> does not wrap on any axis and the product of the
  tile counts does not wrap: every multi-index of the stepped iteration space lies in
  the sub-ranges of exactly one tile index below the tile count, the sub-ranges of a
  tile hold no index outside the iteration space, and on each axis the union of the
  intervals \<open>[tile_start, tile_end)\<close> is \<open>[start, end)\<close>.
\<close>

theorem tiles_cover:
  "(Compute1D p start end step tile_size cost = Inr (RunTiles f n)
      \<and> tile_size_1d (of_nat (default_tile_count p)) (1 + (end - start - 1) div step)
            tile_size = Inr ts
      \<and> unat end + unat step * unat ts < 2 ^ 64
    \<longrightarrow> (\<forall>x. on_axis (start, end, step) x \<longrightarrow> (\<exists>!idx. idx < n \<and> on_axis (f idx) x))
      \<and> (\<forall>idx x. idx < n \<and> on_axis (f idx) x \<longrightarrow> on_axis (start, end, step) x)
      \<and> (\<Union>idx \<in> {..<n}. span (f idx)) = span (start, end, step))
   \<and> (Compute2D p start0 end0 step0 start1 end1 step1 tile_size0 tile_size1 cost
        = Inr (RunTiles f2 n2)
      \<and> tile_size_2d (of_nat (default_tile_count p)) (1 + (end0 - start0 - 1) div step0)
          (1 + (end1 - start1 - 1) div step1) tile_size0 tile_size1 = Inr (ts0, ts1)
      \<and> unat end0 + unat step0 * unat ts0 < 2 ^ 64
      \<and> unat end1 + unat step1 * unat ts1 < 2 ^ 64
      \<and> unat (RoundUp (1 + (end0 - start0 - 1) div step0) ts0)
          * unat (RoundUp (1 + (end1 - start1 - 1) div step1) ts1) < 2 ^ 64
    \<longrightarrow> (\<forall>x0 x1. on_axis (start0, end0, step0) x0 \<and> on_axis (start1, end1, step1) x1 \<longrightarrow>
            (\<exists>!idx. idx < n2 \<and> on_axis (fst (f2 idx)) x0 \<and> on_axis (snd (f2 idx)) x1))
      \<and> (\<forall>idx x0 x1. idx < n2 \<and> on_axis (fst (f2 idx)) x0 \<and> on_axis (snd (f2 idx)) x1 \<longrightarrow>
            on_axis (start0, end0, step0) x0 \<and> on_axis (start1, end1, step1) x1)
      \<and> (\<Union>idx \<in> {..<n2}. span (fst (f2 idx))) = span (start0, end0, step0)
      \<and> (\<Union>idx \<in> {..<n2}. span (snd (f2 idx))) = span (start1, end1, step1))
   \<and> (Compute3D p start0 end0 step0 start1 end1 step1 start2 end2 step2
          tile_size0 tile_size1 tile_size2 cost = Inr (RunTiles f3 n3)
      \<and> start2 < end2
      \<and> tile_size_3d (of_nat (default_tile_count p)) (1 + (end0 - start0 - 1) div step0)
          (1 + (end1 - start1 - 1) div step1) (1 + (end2 - start2 - 1) div step2)
          tile_size0 tile_size1 tile_size2 = Inr (t0, t1, t2)
      \<and> unat end0 + unat step0 * unat t0 < 2 ^ 64
      \<and> unat end1 + unat step1 * unat t1 < 2 ^ 64
      \<and> unat end2 + unat step2 * unat t2 < 2 ^ 64
      \<and> unat (RoundUp (1 + (end0 - start0 - 1) div step0) t0)
          * unat (RoundUp (1 + (end1 - start1 - 1) div step1) t1)
          * unat (RoundUp (1 + (end2 - start2 - 1) div step2) t2) < 2 ^ 64
    \<longrightarrow> (\<forall>x0 x1 x2. on_axis (start0, end0, step0) x0 \<and> on_axis (start1, end1, step1) x1
              \<and> on_axis (start2, end2, step2) x2 \<longrightarrow>
            (\<exists>!idx. idx < n3 \<and> on_axis (fst (f3 idx)) x0 \<and> on_axis (fst (snd (f3 idx))) x1
                \<and> on_axis (snd (snd (f3 idx))) x2))
      \<and> (\<forall>idx x0 x1 x2. idx < n3 \<and> on_axis (fst (f3 idx)) x0
              \<and> on_axis (fst (snd (f3 idx))) x1 \<and> on_axis (snd (snd (f3 idx))) x2 \<longrightarrow>
            on_axis (start0, end0, step0) x0 \<and> on_axis (start1, end1, step1) x1
              \<and> on_axis (start2, end2, step2) x2)
      \<and> (\<Union>idx \<in> {..<n3}. span (fst (f3 idx))) = span (start0, end0, step0)
      \<and> (\<Union>idx \<in> {..<n3}. span (fst (snd (f3 idx)))) = span (start1, end1, step1)
      \<and> (\<Union>idx \<in> {..<n3}. span (snd (snd (f3 idx)))) = span (start2, end2, step2))"
proof (intro conjI impI)
  assume "Compute1D p start end step tile_size cost = Inr (RunTiles f n)
      \<and> tile_size_1d (of_nat (default_tile_count p)) (1 + (end - start - 1) div step)
            tile_size = Inr ts
      \<and> unat end + unat step * unat ts < 2 ^ 64"
  then have a: "Compute1D p start end step tile_size cost = Inr (RunTiles f n)"
    "tile_size_1d (of_nat (default_tile_count p)) (1 + (end - start - 1) div step)
            tile_size = Inr ts"
    "unat end + unat step * unat ts < 2 ^ 64" by blast+
  note c = Compute1D_cover [OF a]
  from c show "\<forall>x. on_axis (start, end, step) x \<longrightarrow> (\<exists>!idx. idx < n \<and> on_axis (f idx) x)" ..
  from c show "\<forall>idx x. idx < n \<and> on_axis (f idx) x \<longrightarrow> on_axis (start, end, step) x"
    by (elim conjE)
  from c show "(\<Union>idx \<in> {..<n}. span (f idx)) = span (start, end, step)"
    by (elim conjE)
next
  assume "Compute2D p start0 end0 step0 start1 end1 step1 tile_size0 tile_size1 cost
        = Inr (RunTiles f2 n2)
      \<and> tile_size_2d (of_nat (default_tile_count p)) (1 + (end0 - start0 - 1) div step0)
          (1 + (end1 - start1 - 1) div step1) tile_size0 tile_size1 = Inr (ts0, ts1)
      \<and> unat end0 + unat step0 * unat ts0 < 2 ^ 64
      \<and> unat end1 + unat step1 * unat ts1 < 2 ^ 64
      \<and> unat (RoundUp (1 + (end0 - start0 - 1) div step0) ts0)
          * unat (RoundUp (1 + (end1 - start1 - 1) div step1) ts1) < 2 ^ 64"
  then have a: "Compute2D p start0 end0 step0 start1 end1 step1 tile_size0 tile_size1 cost
        = Inr (RunTiles f2 n2)"
    "tile_size_2d (of_nat (default_tile_count p)) (1 + (end0 - start0 - 1) div step0)
          (1 + (end1 - start1 - 1) div step1) tile_size0 tile_size1 = Inr (ts0, ts1)"
    "unat end0 + unat step0 * unat ts0 < 2 ^ 64"
    "unat end1 + unat step1 * unat ts1 < 2 ^ 64"
    "unat (RoundUp (1 + (end0 - start0 - 1) div step0) ts0)
          * unat (RoundUp (1 + (end1 - start1 - 1) div step1) ts1) < 2 ^ 64" by blast+
  note c = Compute2D_cover [OF a]
  from c show "\<forall>x0 x1. on_axis (start0, end0, step0) x0 \<and> on_axis (start1, end1, step1) x1 \<longrightarrow>
            (\<exists>!idx. idx < n2 \<and> on_axis (fst (f2 idx)) x0 \<and> on_axis (snd (f2 idx)) x1)" ..
  from c show "\<forall>idx x0 x1. idx < n2 \<and> on_axis (fst (f2 idx)) x0 \<and> on_axis (snd (f2 idx)) x1 \<longrightarrow>
            on_axis (start0, end0, step0) x0 \<and> on_axis (start1, end1, step1) x1"
    by (elim conjE)
  from c show "(\<Union>idx \<in> {..<n2}. span (fst (f2 idx))) = span (start0, end0, step0)"
    by (elim conjE)
  from c show "(\<Union>idx \<in> {..<n2}. span (snd (f2 idx))) = span (start1, end1, step1)"
    by (elim conjE)
next
  assume "Compute3D p start0 end0 step0 start1 end1 step1 start2 end2 step2
          tile_size0 tile_size1 tile_size2 cost = Inr (RunTiles f3 n3)
      \<and> start2 < end2
      \<and> tile_size_3d (of_nat (default_tile_count p)) (1 + (end0 - start0 - 1) div step0)
          (1 + (end1 - start1 - 1) div step1) (1 + (end2 - start2 - 1) div step2)
          tile_size0 tile_size1 tile_size2 = Inr (t0, t1, t2)
      \<and> unat end0 + unat step0 * unat t0 < 2 ^ 64
      \<and> unat end1 + unat step1 * unat t1 < 2 ^ 64
      \<and> unat end2 + unat step2 * unat t2 < 2 ^ 64
      \<and> unat (RoundUp (1 + (end0 - start0 - 1) div step0) t0)
          * unat (RoundUp (1 + (end1 - start1 - 1) div step1) t1)
          * unat (RoundUp (1 + (end2 - start2 - 1) div step2) t2) < 2 ^ 64"
  then have a: "Compute3D p start0 end0 step0 start1 end1 step1 start2 end2 step2
          tile_size0 tile_size1 tile_size2 cost = Inr (RunTiles f3 n3)"
    "start2 < end2"
    "tile_size_3d (of_nat (default_tile_count p)) (1 + (end0 - start0 - 1) div step0)
          (1 + (end1 - start1 - 1) div step1) (1 + (end2 - start2 - 1) div step2)
          tile_size0 tile_size1 tile_size2 = Inr (t0, t1, t2)"
    "unat end0 + unat step0 * unat t0 < 2 ^ 64"
    "unat end1 + unat step1 * unat t1 < 2 ^ 64"
    "unat end2 + unat step2 * unat t2 < 2 ^ 64"
    "unat (RoundUp (1 + (end0 - start0 - 1) div step0) t0)
          * unat (RoundUp (1 + (end1 - start1 - 1) div step1) t1)
          * unat (RoundUp (1 + (end2 - start2 - 1) div step2) t2) < 2 ^ 64" by blast+
  note c = Compute3D_cover [OF a]
  from c show "\<forall>x0 x1 x2. on_axis (start0, end0, step0) x0 \<and> on_axis (start1, end1, step1) x1
              \<and> on_axis (start2, end2, step2) x2 \<longrightarrow>
            (\<exists>!idx. idx < n3 \<and> on_axis (fst (f3 idx)) x0 \<and> on_axis (fst (snd (f3 idx))) x1
                \<and> on_axis (snd (snd (f3 idx))) x2)" ..
  from c show "\<forall>idx x0 x1 x2. idx < n3 \<and> on_axis (fst (f3 idx)) x0
              \<and> on_axis (fst (snd (f3 idx))) x1 \<and> on_axis (snd (snd (f3 idx))) x2 \<longrightarrow>
            on_axis (start0, end0, step0) x0 \<and> on_axis (start1, end1, step1) x1
              \<and> on_axis (start2, end2, step2) x2"
    by (elim conjE)
  from c show "(\<Union>idx \<in> {..<n3}. span (fst (f3 idx))) = span (start0, end0, step0)"
    by (elim conjE)
  from c show "(\<Union>idx \<in> {..<n3}. span (fst (snd (f3 idx)))) = span (start1, end1, step1)"
    by (elim conjE)
  from c show "(\<Union>idx \<in> {..<n3}. span (snd (snd (f3 idx)))) = span (start2, end2, step2)"
    by (elim conjE)
qed

theorem tiles_cover_witness:
  "Compute1D (pool 4 4) 0 10 1 0 (- 1) = Inr (RunTiles (tile_range 0 10 1 2) 5)
   \<and> unat (10 :: size_t) + unat (1 :: size_t) * unat (2 :: size_t) < 2 ^ 64
   \<and> on_axis (0, 10, 1) 7
   \<and> (\<exists>!idx. idx < 5 \<and> on_axis (tile_range 0 10 1 2 idx) 7)
   \<and> (\<Union>idx \<in> {..<5}. span (tile_range 0 10 1 2 idx)) = span (0, 10, 1)
   \<and> Compute2D (pool 4 8) 0 3 1 0 100 1 0 0 (- 1)
     = Inr (RunTiles (\<lambda>idx. (tile_range 0 3 1 1 (idx div 3),
                              tile_range 0 100 1 37 (idx - idx div 3 * 3))) 9)
   \<and> (\<exists>!idx. idx < 9 \<and> on_axis (tile_range 0 3 1 1 (idx div 3)) 2
          \<and> on_axis (tile_range 0 100 1 37 (idx - idx div 3 * 3)) 99)
   \<and> Compute3D (pool 4 8) 0 3 1 0 2 1 0 100 1 0 0 0 (- 1)
     = Inr (RunTiles (\<lambda>idx. (tile_range 0 3 1 1 (idx div 4),
                              tile_range 0 2 1 1 ((idx - idx div 4 * 4) div 2),
                              tile_range 0 100 1 75
                                (idx - idx div 4 * 4 - (idx - idx div 4 * 4) div 2 * 2))) 12)
   \<and> (0 :: size_t) < 100
   \<and> (\<exists>!idx. idx < 12 \<and> on_axis (tile_range 0 3 1 1 (idx div 4)) 2
          \<and> on_axis (tile_range 0 2 1 1 ((idx - idx div 4 * 4) div 2)) 1
          \<and> on_axis (tile_range 0 100 1 75
                (idx - idx div 4 * 4 - (idx - idx div 4 * 4) div 2 * 2)) 99)"
proof -
  have h1: "Compute1D (pool 4 4) 0 10 1 0 (- 1) = Inr (RunTiles (tile_range 0 10 1 2) 5)
      \<and> tile_size_1d (of_nat (default_tile_count (pool 4 4))) (1 + (10 - 0 - 1) div 1) 0
          = Inr 2
      \<and> unat (10 :: size_t) + unat (1 :: size_t) * unat (2 :: size_t) < 2 ^ 64"
    using cover_inputs(1,2) by simp
  have h2: "Compute2D (pool 4 8) 0 3 1 0 100 1 0 0 (- 1)
        = Inr (RunTiles (\<lambda>idx. (tile_range 0 3 1 1 (idx div 3),
                              tile_range 0 100 1 37 (idx - idx div 3 * 3))) 9)
      \<and> tile_size_2d (of_nat (default_tile_count (pool 4 8))) (1 + (3 - 0 - 1) div 1)
          (1 + (100 - 0 - 1) div 1) 0 0 = Inr (1, 37)
      \<and> unat (3 :: size_t) + unat (1 :: size_t) * unat (1 :: size_t) < 2 ^ 64
      \<and> unat (100 :: size_t) + unat (1 :: size_t) * unat (37 :: size_t) < 2 ^ 64
      \<and> unat (RoundUp (1 + (3 - 0 - 1) div 1) (1 :: size_t))
          * unat (RoundUp (1 + (100 - 0 - 1) div 1) (37 :: size_t)) < 2 ^ 64"
    using cover_inputs(3,4) by (simp add: RoundUp_def)
  have h3: "Compute3D (pool 4 8) 0 3 1 0 2 1 0 100 1 0 0 0 (- 1)
        = Inr (RunTiles (\<lambda>idx. (tile_range 0 3 1 1 (idx div 4),
                              tile_range 0 2 1 1 ((idx - idx div 4 * 4) div 2),
                              tile_range 0 100 1 75
                                (idx - idx div 4 * 4 - (idx - idx div 4 * 4) div 2 * 2))) 12)
      \<and> (0 :: size_t) < 100
      \<and> tile_size_3d (of_nat (default_tile_count (pool 4 8))) (1 + (3 - 0 - 1) div 1)
          (1 + (2 - 0 - 1) div 1) (1 + (100 - 0 - 1) div 1) 0 0 0 = Inr (1, 1, 75)
      \<and> unat (3 :: size_t) + unat (1 :: size_t) * unat (1 :: size_t) < 2 ^ 64
      \<and> unat (2 :: size_t) + unat (1 :: size_t) * unat (1 :: size_t) < 2 ^ 64
      \<and> unat (100 :: size_t) + unat (1 :: size_t) * unat (75 :: size_t) < 2 ^ 64
      \<and> unat (RoundUp (1 + (3 - 0 - 1) div 1) (1 :: size_t))
          * unat (RoundUp (1 + (2 - 0 - 1) div 1) (1 :: size_t))
          * unat (RoundUp (1 + (100 - 0 - 1) div 1) (75 :: size_t)) < 2 ^ 64"
    using cover_inputs(5,6) by (simp add: RoundUp_def)
  note c1 = tiles_cover [THEN conjunct1, rule_format, OF h1]
  note c2 = tiles_cover [THEN conjunct2, THEN conjunct1, rule_format, OF h2]
  note c3 = tiles_cover [THEN conjunct2, THEN conjunct2, rule_format, OF h3]
  have a1: "\<exists>!idx. idx < 5 \<and> on_axis (tile_range 0 10 1 2 idx) 7"
    using c1 [THEN conjunct1, rule_format, OF on_axis_examples(1)] .
  have b1: "(\<Union>idx \<in> {..<5}. span (tile_range 0 10 1 2 idx)) = span (0, 10, 1)"
    using c1 [THEN conjunct2, THEN conjunct2] .
  have a2: "\<exists>!idx. idx < 9 \<and> on_axis (tile_range 0 3 1 1 (idx div 3)) 2
          \<and> on_axis (tile_range 0 100 1 37 (idx - idx div 3 * 3)) 99"
    using c2 [THEN conjunct1, rule_format, OF conjI [OF on_axis_examples(2,3)]]
    by simp
  have a3: "\<exists>!idx. idx < 12 \<and> on_axis (tile_range 0 3 1 1 (idx div 4)) 2
          \<and> on_axis (tile_range 0 2 1 1 ((idx - idx div 4 * 4) div 2)) 1
          \<and> on_axis (tile_range 0 100 1 75
                (idx - idx div 4 * 4 - (idx - idx div 4 * 4) div 2 * 2)) 99"
    using c3 [THEN conjunct1, rule_format,
        OF conjI [OF on_axis_examples(2) conjI [OF on_axis_examples(4,3)]]]
    by simp
  from h1 h2 h3 a1 b1 a2 a3 on_axis_examples(1) show ?thesis
    by (intro conjI) (simp_all only:)
qed

subsection \<open>The invariant of ThreadRun\<close>

lemma sum_change_one:
  fixes f g :: "nat \<Rightarrow> 'a::comm_monoid_add"
  assumes "i < T" and "\<And>x. x < T \<Longrightarrow> x \<noteq> i \<Longrightarrow> g x = f x"
  shows "(\<Sum>x<T. g x) + f i = (\<Sum>x<T. f x) + g i"
proof -
  have i: "i \<in> {..<T}" using assms(1) by simp
  have "sum g ({..<T} - {i}) = sum f ({..<T} - {i})"
    using assms(2) by (intro sum.cong) auto
  then show ?thesis
    unfolding sum.remove [OF finite_lessThan i, of g] sum.remove [OF finite_lessThan i, of f]
    by (simp add: ac_simps)
qed

lemma pending_update:
  assumes "tid < T" "length ps = T"
  shows "pending T (ps[tid := p']) r + claim tid (ps ! tid) r = pending T ps r + claim tid p' r"
proof -
  have "(\<Sum>th<T. claim th (ps[tid := p'] ! th) r) + claim tid (ps ! tid) r
      = (\<Sum>th<T. claim th (ps ! th) r) + claim tid (ps[tid := p'] ! tid) r"
    using assms(1) by (rule sum_change_one) simp
  then show ?thesis using assms by (simp add: pending_def)
qed

lemma pending_same:
  assumes "tid < T" "length ps = T" "claim tid (ps ! tid) r = claim tid p' r"
  shows "pending T (ps[tid := p']) r = pending T ps r"
  using pending_update [OF assms(1,2), of p' r] assms(3) by simp

lemma pending_pos:
  assumes "tid < T" "0 < claim tid (ps ! tid) r"
  shows "0 < pending T ps r"
proof -
  have "claim tid (ps ! tid) r \<le> (\<Sum>th<T. claim th (ps ! th) r)"
    using assms(1) by (intro member_le_sum) simp_all
  with assms(2) show ?thesis by (simp add: pending_def)
qed

lemma taken_update:
  assumes "r0 < T" "length is = T"
  shows "(\<Sum>r<T. taken off (is[r0 := x]) r) + taken off is r0
       = (\<Sum>r<T. taken off is r) + taken off (is[r0 := x]) r0"
  using assms(1) by (rule sum_change_one) (simp add: taken_def)

lemma taken_same:
  assumes "r0 < T" "length is = T" "range_start x = range_start (is ! r0)"
    "range_end x = range_end (is ! r0)"
  shows "(\<Sum>r<T. taken off (is[r0 := x]) r) = (\<Sum>r<T. taken off is r)"
proof -
  have "taken off (is[r0 := x]) r = taken off is r" if "r < T" for r
    using that assms by (cases "r = r0") (simp_all add: taken_def)
  then show ?thesis by (intro sum.cong) simp_all
qed

lemma claim_simps:
  "claim th Own_load r = 0" "claim th (Own_cas v) r = 0"
  "claim th Own_run r = (if r = th then 1 else 0)"
  "claim th (Steal_load t) r = 0" "claim th (Steal_cas t v) r = 0"
  "claim th (Steal_run t) r = (if r = t then 1 else 0)"
  "claim th Done r = 0"
  by (simp_all add: claim_def)

lemma past_own_simps:
  "\<not> past_own Own_load" "\<not> past_own (Own_cas v)" "\<not> past_own Own_run"
  "past_own (Steal_load t)" "past_own (Steal_cas t v)" "past_own (Steal_run t)" "past_own Done"
  by (simp_all add: past_own_def)

lemma pc_ok_simps:
  "pc_ok T Own_load" "pc_ok T (Own_cas v) \<longleftrightarrow> v \<noteq> 0" "pc_ok T Own_run"
  "pc_ok T (Steal_load t) \<longleftrightarrow> t < T" "pc_ok T (Steal_cas t v) \<longleftrightarrow> t < T \<and> v \<noteq> 0"
  "pc_ok T (Steal_run t) \<longleftrightarrow> t < T" "pc_ok T Done"
  by (simp_all add: pc_ok_def)

text \<open>A step that only moves the thread, between places that hold no claimed index.\<close>

lemma inv_move:
  assumes inv: "run_inv T off s" and tid: "tid < T"
    and old: "\<And>r. claim tid (pcs s ! tid) r = 0" and new: "\<And>r. claim tid p' r = 0"
    and ok: "pc_ok T p'"
    and own: "past_own p' \<Longrightarrow> range_len (infos s ! tid) = 0"
  shows "run_inv T off (s\<lparr>pcs := (pcs s)[tid := p']\<rparr>)"
proof -
  from inv have len: "length (infos s) = T" "length (pcs s) = T"
    by (simp_all add: run_inv_def)
  have p: "pending T ((pcs s)[tid := p']) r = pending T (pcs s) r" for r
    using tid len(2) by (rule pending_same) (simp add: old new)
  have nth: "(pcs s)[tid := p'] ! th = (if th = tid then p' else pcs s ! th)" if "th < T" for th
    using that len(2) by (simp add: nth_list_update)
  show ?thesis
    using inv ok own unfolding run_inv_def
    by (simp add: p nth executed_def)
qed

lemma unat_minus_one':
  fixes v :: size_t
  assumes "v \<noteq> 0"
  shows "unat (v - 1) = unat v - 1"
proof -
  have "1 \<le> v" using assms unat_gt_0 [of v] by (simp add: word_le_nat_alt)
  then show ?thesis by (simp add: unat_sub)
qed

lemma unat_plus_one:
  fixes v w :: size_t
  assumes "unat v < unat w"
  shows "unat (v + 1) = unat v + 1"
proof -
  have "unat w < 2 ^ 64" using unsigned_less [of w, where ?'a = nat] by simp
  then have "unat v + unat (1 :: size_t) < 2 ^ LENGTH(64)" using assms by simp
  then have "unat (v + 1) = unat v + unat (1 :: size_t)" by (simp only: unat_add_lem)
  then show ?thesis by simp
qed

text \<open>A successful \<open>compare_exchange_strong\<close> on record \<open>r0\<close>.\<close>

lemma inv_cas:
  assumes inv: "run_inv T off s" and tid: "tid < T" and r0: "r0 < T"
    and old: "\<And>r. claim tid (pcs s ! tid) r = 0"
    and new: "\<And>r. claim tid p' r = (if r = r0 then 1 else 0)"
    and ok: "pc_ok T p'"
    and v: "range_len (infos s ! r0) \<noteq> 0"
    and own: "past_own p' \<Longrightarrow> past_own (pcs s ! tid)"
  shows "run_inv T off
     (s\<lparr>infos := (infos s)[r0 := (infos s ! r0)\<lparr>range_len := range_len (infos s ! r0) - 1\<rparr>],
        pcs := (pcs s)[tid := p']\<rparr>)"
proof -
  let ?x = "(infos s ! r0)\<lparr>range_len := range_len (infos s ! r0) - 1\<rparr>"
  let ?is = "(infos s)[r0 := ?x]"
  let ?ps = "(pcs s)[tid := p']"
  from inv have len: "length (infos s) = T" "length (pcs s) = T"
    by (simp_all add: run_inv_def)
  from inv have rec: "off r \<le> unat (range_start (infos s ! r))"
      "unat (range_end (infos s ! r)) \<le> off (Suc r)"
      "unat (range_start (infos s ! r)) + unat (range_len (infos s ! r))
         + pending T (pcs s) r = unat (range_end (infos s ! r))" if "r < T" for r
    using that by (simp_all add: run_inv_def)
  from inv have thr: "pc_ok T (pcs s ! th)"
      "past_own (pcs s ! th) \<Longrightarrow> range_len (infos s ! th) = 0" if "th < T" for th
    using that by (simp_all add: run_inv_def)
  from inv have ex: "mset (map unat (executed s)) = (\<Sum>r<T. taken off (infos s) r)"
    by (simp add: run_inv_def)
  have p: "pending T ?ps r = pending T (pcs s) r + (if r = r0 then 1 else 0)" for r
    using pending_update [OF tid len(2), of p' r] by (simp add: old new)
  have nth_p: "?ps ! th = (if th = tid then p' else pcs s ! th)" if "th < T" for th
    using that len(2) by (simp add: nth_list_update)
  have nth_i: "?is ! r = (if r = r0 then ?x else infos s ! r)" if "r < T" for r
    using that len(1) by (simp add: nth_list_update)
  have dec: "unat (range_len (infos s ! r0) - 1) + 1 = unat (range_len (infos s ! r0))"
    using v unat_gt_0 [of "range_len (infos s ! r0)"] by (simp add: unat_minus_one')
  have 1: "off r \<le> unat (range_start (?is ! r))
      \<and> unat (range_end (?is ! r)) \<le> off (Suc r)
      \<and> unat (range_start (?is ! r)) + unat (range_len (?is ! r)) + pending T ?ps r
          = unat (range_end (?is ! r))" if "r < T" for r
  proof (cases "r = r0")
    case True
    with rec [OF that] dec show ?thesis
      unfolding nth_i [OF that] p by simp
  next
    case False
    with rec [OF that] show ?thesis
      unfolding nth_i [OF that] p by simp
  qed
  have 2: "pc_ok T (?ps ! th) \<and> (past_own (?ps ! th) \<longrightarrow> range_len (?is ! th) = 0)"
    if "th < T" for th
  proof -
    have a: "past_own (if th = tid then p' else pcs s ! th) \<Longrightarrow> past_own (pcs s ! th)"
      using own by (simp split: if_splits)
    have "th \<noteq> r0" if "past_own (pcs s ! th)"
      using thr(2) [OF \<open>th < T\<close> that] v by auto
    then show ?thesis
      using thr [OF that] ok a by (auto simp add: nth_p [OF that] nth_i [OF that])
  qed
  have 3: "(\<Sum>r<T. taken off ?is r) = (\<Sum>r<T. taken off (infos s) r)"
    using r0 len(1) by (rule taken_same) simp_all
  show ?thesis
    unfolding run_inv_def using len 1 2 3 ex by (simp add: executed_def)
qed

text \<open>The owner takes the index at \<open>range_start\<close>.\<close>

lemma inv_own_run:
  assumes inv: "run_inv T off s" and tid: "tid < T" and pc: "pcs s ! tid = Own_run"
  shows "run_inv T off
     (s\<lparr>infos := (infos s)[tid := (infos s ! tid)\<lparr>range_start := range_start (infos s ! tid) + 1\<rparr>],
        pcs := (pcs s)[tid := Own_load],
        calls := calls s @ [(tid, range_start (infos s ! tid))]\<rparr>)"
proof -
  let ?x = "(infos s ! tid)\<lparr>range_start := range_start (infos s ! tid) + 1\<rparr>"
  let ?is = "(infos s)[tid := ?x]"
  let ?ps = "(pcs s)[tid := Own_load]"
  from inv have len: "length (infos s) = T" "length (pcs s) = T"
    by (simp_all add: run_inv_def)
  from inv have rec: "off r \<le> unat (range_start (infos s ! r))"
      "unat (range_end (infos s ! r)) \<le> off (Suc r)"
      "unat (range_start (infos s ! r)) + unat (range_len (infos s ! r))
         + pending T (pcs s) r = unat (range_end (infos s ! r))" if "r < T" for r
    using that by (simp_all add: run_inv_def)
  from inv have thr: "pc_ok T (pcs s ! th)"
      "past_own (pcs s ! th) \<Longrightarrow> range_len (infos s ! th) = 0" if "th < T" for th
    using that by (simp_all add: run_inv_def)
  from inv have ex: "mset (map unat (executed s)) = (\<Sum>r<T. taken off (infos s) r)"
    by (simp add: run_inv_def)
  have p: "pending T ?ps r + (if r = tid then 1 else 0) = pending T (pcs s) r" for r
    using pending_update [OF tid len(2), of Own_load r] by (simp add: pc claim_simps)
  have "0 < pending T (pcs s) tid"
    using tid by (rule pending_pos) (simp add: pc claim_simps)
  with rec(3) [OF tid]
  have lt: "unat (range_start (infos s ! tid)) < unat (range_end (infos s ! tid))" by simp
  then have inc: "unat (range_start (infos s ! tid) + 1) = unat (range_start (infos s ! tid)) + 1"
    by (rule unat_plus_one)
  have nth_p: "?ps ! th = (if th = tid then Own_load else pcs s ! th)" if "th < T" for th
    using that len(2) by (simp add: nth_list_update)
  have nth_i: "?is ! r = (if r = tid then ?x else infos s ! r)" if "r < T" for r
    using that len(1) by (simp add: nth_list_update)
  have 1: "off r \<le> unat (range_start (?is ! r))
      \<and> unat (range_end (?is ! r)) \<le> off (Suc r)
      \<and> unat (range_start (?is ! r)) + unat (range_len (?is ! r)) + pending T ?ps r
          = unat (range_end (?is ! r))" if "r < T" for r
  proof (cases "r = tid")
    case True
    with rec [OF that] p [of r] inc show ?thesis
      unfolding nth_i [OF that] by simp
  next
    case False
    with rec [OF that] p [of r] show ?thesis
      unfolding nth_i [OF that] by simp
  qed
  have 2: "pc_ok T (?ps ! th) \<and> (past_own (?ps ! th) \<longrightarrow> range_len (?is ! th) = 0)"
    if "th < T" for th
    using thr [OF that]
    by (auto simp add: nth_p [OF that] nth_i [OF that] pc_ok_simps past_own_simps)
  have "taken off ?is tid
      = taken off (infos s) tid + {#unat (range_start (infos s ! tid))#}"
    using rec(1) [OF tid] tid len(1) by (simp add: taken_def inc)
  with taken_update [OF tid len(1), of off ?x]
  have 3: "(\<Sum>r<T. taken off ?is r)
      = (\<Sum>r<T. taken off (infos s) r) + {#unat (range_start (infos s ! tid))#}"
    by (simp add: ac_simps)
  show ?thesis
    unfolding run_inv_def using len 1 2 3 ex by (simp add: executed_def)
qed

text \<open>A stealer takes the index below \<open>range_end\<close>.\<close>

lemma inv_steal_run:
  assumes inv: "run_inv T off s" and tid: "tid < T" and pc: "pcs s ! tid = Steal_run t"
  shows "run_inv T off
     (s\<lparr>infos := (infos s)[t := (infos s ! t)\<lparr>range_end := range_end (infos s ! t) - 1\<rparr>],
        pcs := (pcs s)[tid := Steal_load t],
        calls := calls s @ [(tid, range_end (infos s ! t) - 1)]\<rparr>)"
proof -
  let ?x = "(infos s ! t)\<lparr>range_end := range_end (infos s ! t) - 1\<rparr>"
  let ?is = "(infos s)[t := ?x]"
  let ?ps = "(pcs s)[tid := Steal_load t]"
  from inv have len: "length (infos s) = T" "length (pcs s) = T"
    by (simp_all add: run_inv_def)
  from inv have rec: "off r \<le> unat (range_start (infos s ! r))"
      "unat (range_end (infos s ! r)) \<le> off (Suc r)"
      "unat (range_start (infos s ! r)) + unat (range_len (infos s ! r))
         + pending T (pcs s) r = unat (range_end (infos s ! r))" if "r < T" for r
    using that by (simp_all add: run_inv_def)
  from inv have thr: "pc_ok T (pcs s ! th)"
      "past_own (pcs s ! th) \<Longrightarrow> range_len (infos s ! th) = 0" if "th < T" for th
    using that by (simp_all add: run_inv_def)
  from inv have ex: "mset (map unat (executed s)) = (\<Sum>r<T. taken off (infos s) r)"
    by (simp add: run_inv_def)
  have t: "t < T" using thr(1) [OF tid] by (simp add: pc pc_ok_simps)
  have p: "pending T ?ps r + (if r = t then 1 else 0) = pending T (pcs s) r" for r
    using pending_update [OF tid len(2), of "Steal_load t" r] by (simp add: pc claim_simps)
  have "0 < pending T (pcs s) t"
    using tid by (rule pending_pos) (simp add: pc claim_simps)
  with rec(3) [OF t]
  have pos: "0 < unat (range_end (infos s ! t))"
    and le: "unat (range_start (infos s ! t)) < unat (range_end (infos s ! t))" by simp_all
  then have "range_end (infos s ! t) \<noteq> 0" by auto
  then have dec: "unat (range_end (infos s ! t) - 1) = unat (range_end (infos s ! t)) - 1"
    by (rule unat_minus_one')
  have nth_p: "?ps ! th = (if th = tid then Steal_load t else pcs s ! th)" if "th < T" for th
    using that len(2) by (simp add: nth_list_update)
  have nth_i: "?is ! r = (if r = t then ?x else infos s ! r)" if "r < T" for r
    using that len(1) by (simp add: nth_list_update)
  have 1: "off r \<le> unat (range_start (?is ! r))
      \<and> unat (range_end (?is ! r)) \<le> off (Suc r)
      \<and> unat (range_start (?is ! r)) + unat (range_len (?is ! r)) + pending T ?ps r
          = unat (range_end (?is ! r))" if "r < T" for r
  proof (cases "r = t")
    case True
    with rec [OF that] p [of r] dec pos show ?thesis
      unfolding nth_i [OF that] by simp linarith
  next
    case False
    with rec [OF that] p [of r] show ?thesis
      unfolding nth_i [OF that] by simp
  qed
  have 2: "pc_ok T (?ps ! th) \<and> (past_own (?ps ! th) \<longrightarrow> range_len (?is ! th) = 0)"
    if "th < T" for th
    using thr [OF that] thr(2) [OF tid] t
    by (auto simp add: nth_p [OF that] nth_i [OF that] pc pc_ok_simps past_own_simps)
  have "[unat (range_end (infos s ! t)) - 1..<off (Suc t)]
      = (unat (range_end (infos s ! t)) - 1) # [unat (range_end (infos s ! t))..<off (Suc t)]"
    using pos rec(2) [OF t] by (subst upt_conv_Cons) simp_all
  then have "taken off ?is t
      = taken off (infos s) t + {#unat (range_end (infos s ! t)) - 1#}"
    using t len(1) by (simp add: taken_def dec)
  with taken_update [OF t len(1), of off ?x]
  have 3: "(\<Sum>r<T. taken off ?is r)
      = (\<Sum>r<T. taken off (infos s) r) + {#unat (range_end (infos s ! t)) - 1#}"
    by (simp add: ac_simps)
  show ?thesis
    unfolding run_inv_def using len 1 2 3 ex by (simp add: executed_def dec)
qed

lemma steal_from_props:
  assumes "0 < T"
  shows "pc_ok T (steal_from tid (t mod T))" "claim tid (steal_from tid (t mod T)) r = 0"
    "past_own (steal_from tid (t mod T))"
  using assms by (simp_all add: steal_from_def pc_ok_simps claim_simps past_own_simps)

lemma thread_step_inv:
  assumes inv: "run_inv T off s"
  shows "run_inv T off (thread_step T tid s)"
proof (cases "tid < T")
  case False
  then show ?thesis using inv by (simp add: thread_step_def)
next
  case tid: True
  then have T: "0 < T" by simp
  from inv have thr: "pc_ok T (pcs s ! tid)"
      "past_own (pcs s ! tid) \<Longrightarrow> range_len (infos s ! tid) = 0"
    using tid by (simp_all add: run_inv_def)
  show ?thesis
  proof (cases "pcs s ! tid")
    case Own_load
    show ?thesis
    proof (cases "range_len (infos s ! tid) > 0")
      case True
      then have "range_len (infos s ! tid) \<noteq> 0" by auto
      then have "run_inv T off (s\<lparr>pcs := (pcs s)[tid := Own_cas (range_len (infos s ! tid))]\<rparr>)"
        using inv tid
        by (intro inv_move) (simp_all add: Own_load claim_simps pc_ok_simps past_own_simps)
      then show ?thesis using tid True by (simp add: thread_step_def Own_load)
    next
      case False
      then have z: "range_len (infos s ! tid) = 0" using word_gt_0 [of "range_len (infos s ! tid)"] by auto
      have "run_inv T off (s\<lparr>pcs := (pcs s)[tid := steal_from tid ((tid + 1) mod T)]\<rparr>)"
        using inv tid z
        by (intro inv_move) (simp_all add: Own_load claim_simps steal_from_props [OF T])
      then show ?thesis using tid False by (simp add: thread_step_def Own_load)
    qed
  next
    case (Own_cas v)
    with thr(1) have v: "v \<noteq> 0" by (simp add: pc_ok_simps)
    show ?thesis
    proof (cases "range_len (infos s ! tid) = v")
      case True
      have "run_inv T off
         (s\<lparr>infos := (infos s)[tid := (infos s ! tid)\<lparr>range_len := range_len (infos s ! tid) - 1\<rparr>],
            pcs := (pcs s)[tid := Own_run]\<rparr>)"
        using inv tid tid v True
        by (intro inv_cas) (simp_all add: Own_cas claim_simps pc_ok_simps past_own_simps)
      then show ?thesis using tid True by (simp add: thread_step_def Own_cas)
    next
      case False
      have "run_inv T off (s\<lparr>pcs := (pcs s)[tid := Own_load]\<rparr>)"
        using inv tid
        by (intro inv_move) (simp_all add: Own_cas claim_simps pc_ok_simps past_own_simps)
      then show ?thesis using tid False by (simp add: thread_step_def Own_cas)
    qed
  next
    case Own_run
    from inv_own_run [OF inv tid Own_run] show ?thesis
      using tid by (simp add: thread_step_def Own_run Let_def)
  next
    case (Steal_load t)
    with thr have t: "t < T" and z: "range_len (infos s ! tid) = 0"
      by (simp_all add: pc_ok_simps past_own_simps)
    show ?thesis
    proof (cases "range_len (infos s ! t) > 0")
      case True
      then have "range_len (infos s ! t) \<noteq> 0" by auto
      then have "run_inv T off (s\<lparr>pcs := (pcs s)[tid := Steal_cas t (range_len (infos s ! t))]\<rparr>)"
        using inv tid t z
        by (intro inv_move) (simp_all add: Steal_load claim_simps pc_ok_simps)
      then show ?thesis using tid True by (simp add: thread_step_def Steal_load)
    next
      case False
      have "run_inv T off (s\<lparr>pcs := (pcs s)[tid := steal_from tid ((t + 1) mod T)]\<rparr>)"
        using inv tid z
        by (intro inv_move) (simp_all add: Steal_load claim_simps steal_from_props [OF T])
      then show ?thesis using tid False by (simp add: thread_step_def Steal_load)
    qed
  next
    case (Steal_cas t v)
    with thr have t: "t < T" and v: "v \<noteq> 0" and z: "range_len (infos s ! tid) = 0"
      by (simp_all add: pc_ok_simps past_own_simps)
    show ?thesis
    proof (cases "range_len (infos s ! t) = v")
      case True
      have "run_inv T off
         (s\<lparr>infos := (infos s)[t := (infos s ! t)\<lparr>range_len := range_len (infos s ! t) - 1\<rparr>],
            pcs := (pcs s)[tid := Steal_run t]\<rparr>)"
        using inv tid t v True
        by (intro inv_cas) (simp_all add: Steal_cas claim_simps pc_ok_simps past_own_simps)
      then show ?thesis using tid True by (simp add: thread_step_def Steal_cas)
    next
      case False
      have "run_inv T off (s\<lparr>pcs := (pcs s)[tid := Steal_load t]\<rparr>)"
        using inv tid t z
        by (intro inv_move) (simp_all add: Steal_cas claim_simps pc_ok_simps)
      then show ?thesis using tid False by (simp add: thread_step_def Steal_cas)
    qed
  next
    case (Steal_run t)
    from inv_steal_run [OF inv tid Steal_run] show ?thesis
      using tid by (simp add: thread_step_def Steal_run Let_def)
  next
    case Done
    then show ?thesis using inv by (simp add: thread_step_def)
  qed
qed

lemma run_schedule_inv:
  "run_inv T off s \<Longrightarrow> run_inv T off (run_schedule T s schedule)"
  unfolding run_schedule_def
  by (induction schedule arbitrary: s) (simp_all add: thread_step_inv)

lemma sum_mset_upt:
  assumes "\<And>i j. i \<le> j \<Longrightarrow> off i \<le> off (j :: nat)"
  shows "(\<Sum>r<T. mset [off r..<off (Suc r)]) = mset [off 0..<(off T :: nat)]"
proof (induction T)
  case 0
  then show ?case by simp
next
  case (Suc T)
  have "[off 0..<off T + (off (Suc T) - off T)]
      = [off 0..<off T] @ [off T..<off T + (off (Suc T) - off T)]"
    using assms [of 0 T] by (intro upt_add_eq_append) simp
  moreover have "off T + (off (Suc T) - off T) = off (Suc T)"
    using assms [of T "Suc T"] by simp
  ultimately have "mset [off 0..<off (Suc T)] = mset [off 0..<off T] + mset [off T..<off (Suc T)]"
    by simp
  with Suc show ?case by simp
qed

lemma upt_three:
  assumes "a \<le> s" "s \<le> e" "e \<le> (b :: nat)"
  shows "mset [a..<b] = mset [a..<s] + mset [e..<b] + mset [s..<e]"
proof -
  have 1: "[a..<s + (e - s)] = [a..<s] @ [s..<s + (e - s)]"
    using assms(1) by (rule upt_add_eq_append)
  have 2: "[a..<e + (b - e)] = [a..<e] @ [e..<e + (b - e)]"
    using assms(1,2) by (intro upt_add_eq_append) simp
  from 1 2 assms show ?thesis by simp
qed

text \<open>
  In a state of the invariant, the indices passed to the body and the indices still
  between \<open>range_start\<close> and \<open>range_end\<close> of the records together are \<open>[off 0, off T)\<close>.
\<close>

lemma inv_accounts:
  assumes inv: "run_inv T off s" and mono: "\<And>i j. i \<le> j \<Longrightarrow> off i \<le> off j"
  shows "mset (map unat (executed s))
      + (\<Sum>r<T. mset [unat (range_start (infos s ! r))..<unat (range_end (infos s ! r))])
    = mset [off 0..<off T]"
proof -
  have "taken off (infos s) r
        + mset [unat (range_start (infos s ! r))..<unat (range_end (infos s ! r))]
      = mset [off r..<off (Suc r)]" if "r < T" for r
  proof -
    from inv that have "off r \<le> unat (range_start (infos s ! r))"
      "unat (range_start (infos s ! r)) \<le> unat (range_end (infos s ! r))"
      "unat (range_end (infos s ! r)) \<le> off (Suc r)"
      by (auto simp add: run_inv_def)
    then show ?thesis unfolding taken_def by (rule upt_three [symmetric])
  qed
  then have "(\<Sum>r<T. taken off (infos s) r
        + mset [unat (range_start (infos s ! r))..<unat (range_end (infos s ! r))])
      = (\<Sum>r<T. mset [off r..<off (Suc r)])"
    by (intro sum.cong) simp_all
  then show ?thesis
    using inv sum_mset_upt [of off T, OF mono]
    by (simp add: run_inv_def sum.distrib)
qed

lemma inv_safe:
  assumes inv: "run_inv T off s" and mono: "\<And>i j. i \<le> j \<Longrightarrow> off i \<le> off j"
    and zero: "off 0 = 0" and total: "off T = unat N"
  shows "distinct (executed s)" and "\<forall>i \<in> set (executed s). i < N"
proof -
  obtain rest where rest: "mset rest
      = (\<Sum>r<T. mset [unat (range_start (infos s ! r))..<unat (range_end (infos s ! r))])"
    using ex_mset by blast
  have m: "mset (map unat (executed s) @ rest) = mset [0..<unat N]"
    using inv_accounts [OF inv mono] by (simp add: rest zero total)
  then have "distinct (map unat (executed s) @ rest) \<longleftrightarrow> distinct [0..<unat N]"
    by (rule mset_eq_imp_distinct_iff)
  then have "distinct (map unat (executed s))" by simp
  then show "distinct (executed s)" by (simp add: distinct_map)
  from m have "set (map unat (executed s) @ rest) = set [0..<unat N]"
    by (rule mset_eq_setD)
  then have "unat i < unat N" if "i \<in> set (executed s)" for i
    using that by auto
  then show "\<forall>i \<in> set (executed s). i < N"
    by (simp add: word_less_nat_alt)
qed

lemma all_done_nth: "all_done s \<Longrightarrow> th < length (pcs s) \<Longrightarrow> pcs s ! th = Done"
  by (simp add: all_done_def list_all_length)

lemma inv_complete:
  assumes inv: "run_inv T off s" and mono: "\<And>i j. i \<le> j \<Longrightarrow> off i \<le> off j"
    and zero: "off 0 = 0" and total: "off T = unat N" and fin: "all_done s"
  shows "set (executed s) = {i. i < N}"
proof -
  from inv have len: "length (pcs s) = T" by (simp add: run_inv_def)
  have d: "pcs s ! th = Done" if "th < T" for th
    using all_done_nth [OF fin] that len by simp
  have "pending T (pcs s) r = 0" for r
    by (simp add: pending_def d claim_simps)
  moreover have "range_len (infos s ! r) = 0" if "r < T" for r
    using inv that d [OF that] by (simp add: run_inv_def past_own_simps)
  ultimately have "unat (range_start (infos s ! r)) = unat (range_end (infos s ! r))"
    if "r < T" for r
    using inv that by (simp add: run_inv_def)
  then have "(\<Sum>r<T. mset [unat (range_start (infos s ! r))..<unat (range_end (infos s ! r))])
      = (\<Sum>r<T. {#})"
    by (intro sum.cong) simp_all
  with inv_accounts [OF inv mono] have "mset (map unat (executed s)) = mset [0..<unat N]"
    by (simp add: zero total)
  then have u: "unat ` set (executed s) = {0..<unat N}"
    using mset_eq_setD by fastforce
  show ?thesis
  proof (intro set_eqI iffI)
    fix i assume "i \<in> set (executed s)"
    with inv_safe(2) [OF inv mono zero total] show "i \<in> {i. i < N}" by simp
  next
    fix i assume "i \<in> {i. i < N}"
    then have "unat i \<in> {0..<unat N}" by (simp add: word_less_nat_alt)
    with u obtain j where j: "j \<in> set (executed s)" "unat j = unat i" by (metis imageE)
    from j(2) have "j = i" by (simp add: word_unat_eq_iff)
    with j(1) show "i \<in> set (executed s)" by simp
  qed
qed

text \<open>The state in which \<open>Run\<close> releases the workers.\<close>

lemma start_run_inv:
  assumes T: "0 < T" "T < 2 ^ 64"
  shows "\<exists>s0. start_run T N = Inr s0
    \<and> run_inv T (slot_offset (unat N div T) (unat N mod T)) s0"
proof -
  define off where "off = slot_offset (unat N div T) (unat N mod T)"
  define s0 where "s0 = \<lparr>infos = map (\<lambda>j.
      \<lparr>range_start = of_nat (off j), range_end = of_nat (off (Suc j)),
       range_len = of_nat (off (Suc j) - off j)\<rparr>) [0..<T],
      pcs = replicate T Own_load, calls = []\<rparr>"
  have run: "start_run T N = Inr s0"
    using Run_ranges_eq [OF T, of N] by (simp add: start_run_def s0_def off_def)
  have total: "off T = unat N"
    unfolding off_def using T(1) by (rule slot_offset_total)
  have mono: "off i \<le> off j" if "i \<le> j" for i j
    unfolding off_def using that by (rule slot_offset_mono)
  have small: "off i < 2 ^ 64" if "i \<le> T" for i
    using mono [OF that] total unsigned_less [of N, where ?'a = nat] by simp
  have u: "unat (of_nat (off i) :: size_t) = off i" if "i \<le> T" for i
    using small [OF that] by (rule unat_of_nat_small)
  have ud: "unat (of_nat (off (Suc i) - off i) :: size_t) = off (Suc i) - off i" if "i < T" for i
  proof (rule unat_of_nat_small)
    have "off (Suc i) - off i \<le> off (Suc i)" by simp
    also have "\<dots> < 2 ^ 64" using that by (intro small) simp
    finally show "off (Suc i) - off i < 2 ^ 64" .
  qed
  have p: "pending T (pcs s0) r = 0" for r
    by (simp add: pending_def s0_def claim_simps)
  have nth: "infos s0 ! r = \<lparr>range_start = of_nat (off r), range_end = of_nat (off (Suc r)),
       range_len = of_nat (off (Suc r) - off r)\<rparr>" if "r < T" for r
    using that by (simp add: s0_def del: of_nat_diff)
  have rec: "unat (range_start (infos s0 ! r)) = off r"
      "unat (range_end (infos s0 ! r)) = off (Suc r)"
      "unat (range_len (infos s0 ! r)) = off (Suc r) - off r" if "r < T" for r
    unfolding nth [OF that] using that by (simp_all only: ThreadInfo.simps u ud Suc_leI less_imp_le)
  have "taken off (infos s0) r = {#}" if "r < T" for r
    using that by (simp add: taken_def rec)
  then have t: "(\<Sum>r<T. taken off (infos s0) r) = (\<Sum>r<T. {#})"
    by (intro sum.cong) simp_all
  have 1: "off r \<le> unat (range_start (infos s0 ! r))
      \<and> unat (range_end (infos s0 ! r)) \<le> off (Suc r)
      \<and> unat (range_start (infos s0 ! r)) + unat (range_len (infos s0 ! r))
          + pending T (pcs s0) r = unat (range_end (infos s0 ! r))" if "r < T" for r
    using mono [of r "Suc r"] by (simp add: rec [OF that] p)
  have 2: "pc_ok T (pcs s0 ! th) \<and> (past_own (pcs s0 ! th) \<longrightarrow> range_len (infos s0 ! th) = 0)"
    if "th < T" for th
    using that by (simp add: s0_def pc_ok_simps past_own_simps)
  have 3: "length (infos s0) = T" "length (pcs s0) = T" "executed s0 = []"
    by (simp_all add: s0_def executed_def)
  have "run_inv T off s0"
    unfolding run_inv_def using 1 2 3 t by simp
  with run show ?thesis unfolding off_def by blast
qed

subsection \<open>Termination of ThreadRun\<close>

lemma rank_simps:
  "rank T tid is Own_load = 4 * T + 2"
  "rank T tid is (Own_cas v) = 4 * T + (if range_len (is ! tid) = v then 1 else 3)"
  "rank T tid is Own_run = 4 * T + 3"
  "rank T tid is (Steal_load t) = 4 * peers_left T tid t + 2"
  "rank T tid is (Steal_cas t v) = 4 * peers_left T tid t + (if range_len (is ! t) = v then 1 else 3)"
  "rank T tid is (Steal_run t) = 4 * peers_left T tid t + 3"
  "rank T tid is Done = 0"
  by (simp_all add: rank_def)

lemma rank_next_peer:
  assumes "tid < T" "t < T"
  shows "rank T tid is (steal_from tid ((t + 1) mod T)) < 4 * peers_left T tid t + 2"
proof (cases "(t + 1) mod T = tid")
  case True
  then show ?thesis by (simp add: steal_from_def rank_simps)
next
  case False
  have next_t: "(t + 1) mod T = (if t + 1 = T then 0 else t + 1)"
    using assms(2) by auto
  have "peers_left T tid ((t + 1) mod T) < peers_left T tid t"
    using assms False unfolding next_t peers_left_def by (auto split: if_splits)
  then show ?thesis using False by (simp add: steal_from_def rank_simps)
qed

lemma rank_first_peer:
  assumes "tid < T"
  shows "rank T tid is (steal_from tid ((tid + 1) mod T)) < 4 * T + 2"
  using rank_next_peer [OF assms assms, of "is"] by (simp add: peers_left_def)

lemma rank_infos_le: "rank T th is' p \<le> rank T th is p + 2"
  by (cases p) (simp_all add: rank_simps)

lemma rank_same_len:
  assumes "\<And>r. range_len (is' ! r) = range_len (is ! r)"
  shows "rank T th is' p = rank T th is p"
  by (cases p) (simp_all add: rank_simps assms)

lemma rank_sum_update:
  assumes "tid < T" "length ps = T"
  shows "(\<Sum>th<T. rank T th is (ps[tid := p'] ! th)) + rank T tid is (ps ! tid)
       = (\<Sum>th<T. rank T th is (ps ! th)) + rank T tid is p'"
proof -
  have "(\<Sum>th<T. rank T th is (ps[tid := p'] ! th)) + rank T tid is (ps ! tid)
      = (\<Sum>th<T. rank T th is (ps ! th)) + rank T tid is (ps[tid := p'] ! tid)"
    using assms(1) by (rule sum_change_one) simp
  then show ?thesis using assms by simp
qed

text \<open>A step that only moves the thread, to a place of lower rank.\<close>

lemma work_left_move:
  assumes "tid < T" "length (pcs s) = T"
    and "rank T tid (infos s) p' < rank T tid (infos s) (pcs s ! tid)"
  shows "work_left T (s\<lparr>pcs := (pcs s)[tid := p']\<rparr>) < work_left T s"
  using rank_sum_update [OF assms(1,2), of "infos s" p'] assms(3)
  by (simp add: work_left_def)

text \<open>A step that takes an index: the lengths stay, the rank of the thread falls.\<close>

lemma work_left_run:
  assumes "tid < T" "length (pcs s) = T"
    and len: "\<And>r. range_len (is' ! r) = range_len (infos s ! r)"
    and "rank T tid (infos s) p' < rank T tid (infos s) (pcs s ! tid)"
  shows "work_left T (s\<lparr>infos := is', pcs := (pcs s)[tid := p'], calls := c\<rparr>) < work_left T s"
proof -
  have "rank T th is' p = rank T th (infos s) p" for th p
    using len by (rule rank_same_len)
  then show ?thesis
    using rank_sum_update [OF assms(1,2), of "infos s" p'] assms(4)
    by (simp add: work_left_def len)
qed

text \<open>A successful \<open>compare_exchange_strong\<close>: one index less, ranks rise by at most 2.\<close>

lemma work_left_cas:
  assumes tid: "tid < T" and r0: "r0 < T"
    and len: "length (pcs s) = T" "length (infos s) = T"
    and v: "range_len (infos s ! r0) \<noteq> 0"
    and rk: "rank T tid is' p' \<le> rank T tid (infos s) (pcs s ! tid) + 2"
    and is': "is' = (infos s)[r0 := (infos s ! r0)\<lparr>range_len := range_len (infos s ! r0) - 1\<rparr>]"
  shows "work_left T (s\<lparr>infos := is', pcs := (pcs s)[tid := p']\<rparr>) < work_left T s"
proof -
  have "(\<Sum>r<T. unat (range_len (is' ! r))) + unat (range_len (infos s ! r0))
      = (\<Sum>r<T. unat (range_len (infos s ! r))) + unat (range_len (is' ! r0))"
    using r0 by (rule sum_change_one) (simp add: is')
  moreover have "unat (range_len (is' ! r0)) + 1 = unat (range_len (infos s ! r0))"
    using v r0 len(2) unat_gt_0 [of "range_len (infos s ! r0)"]
    by (simp add: is' unat_minus_one')
  ultimately have a: "(\<Sum>r<T. unat (range_len (is' ! r))) + 1
      = (\<Sum>r<T. unat (range_len (infos s ! r)))" by simp
  have "rank T th is' ((pcs s)[tid := p'] ! th) \<le> rank T th (infos s) (pcs s ! th) + 2"
    if "th < T" for th
    using that len(1) rk rank_infos_le [of T th is' "pcs s ! th" "infos s"]
    by (cases "th = tid") simp_all
  then have "(\<Sum>th<T. rank T th is' ((pcs s)[tid := p'] ! th))
      \<le> (\<Sum>th<T. rank T th (infos s) (pcs s ! th) + 2)"
    by (intro sum_mono) simp
  also have "\<dots> = (\<Sum>th<T. rank T th (infos s) (pcs s ! th)) + 2 * T"
    unfolding sum.distrib by simp
  finally have b: "(\<Sum>th<T. rank T th is' ((pcs s)[tid := p'] ! th))
      \<le> (\<Sum>th<T. rank T th (infos s) (pcs s ! th)) + 2 * T" .
  have "(2 * T + 1) * (\<Sum>r<T. unat (range_len (infos s ! r)))
      = (2 * T + 1) * (\<Sum>r<T. unat (range_len (is' ! r))) + (2 * T + 1)"
    unfolding a [symmetric] by (simp add: algebra_simps)
  with b show ?thesis by (simp add: work_left_def)
qed

lemma thread_step_decreases:
  assumes inv: "run_inv T off s" and tid: "tid < T" and busy: "pcs s ! tid \<noteq> Done"
  shows "work_left T (thread_step T tid s) < work_left T s"
proof -
  from inv have len: "length (pcs s) = T" "length (infos s) = T"
    by (simp_all add: run_inv_def)
  from inv have ok: "pc_ok T (pcs s ! tid)"
    using tid by (simp add: run_inv_def)
  show ?thesis
  proof (cases "pcs s ! tid")
    case Own_load
    show ?thesis
    proof (cases "range_len (infos s ! tid) > 0")
      case True
      have "work_left T (s\<lparr>pcs := (pcs s)[tid := Own_cas (range_len (infos s ! tid))]\<rparr>)
          < work_left T s"
        using tid len(1) by (rule work_left_move) (simp add: Own_load rank_simps)
      then show ?thesis using tid True by (simp add: thread_step_def Own_load)
    next
      case False
      have "work_left T (s\<lparr>pcs := (pcs s)[tid := steal_from tid ((tid + 1) mod T)]\<rparr>)
          < work_left T s"
        using tid len(1)
        by (rule work_left_move)
          (use rank_first_peer [OF tid, of "infos s"] in \<open>simp add: Own_load rank_simps\<close>)
      then show ?thesis using tid False by (simp add: thread_step_def Own_load)
    qed
  next
    case (Own_cas v)
    with ok have v: "v \<noteq> 0" by (simp add: pc_ok_simps)
    show ?thesis
    proof (cases "range_len (infos s ! tid) = v")
      case True
      have "work_left T
         (s\<lparr>infos := (infos s)[tid := (infos s ! tid)\<lparr>range_len := range_len (infos s ! tid) - 1\<rparr>],
            pcs := (pcs s)[tid := Own_run]\<rparr>) < work_left T s"
        using tid tid len
      proof (rule work_left_cas)
        show "range_len (infos s ! tid) \<noteq> 0" using True v by simp
      qed (simp_all add: Own_cas True rank_simps)
      then show ?thesis using tid True by (simp add: thread_step_def Own_cas)
    next
      case False
      have "work_left T (s\<lparr>pcs := (pcs s)[tid := Own_load]\<rparr>) < work_left T s"
        using tid len(1) by (rule work_left_move) (simp add: Own_cas False rank_simps)
      then show ?thesis using tid False by (simp add: thread_step_def Own_cas)
    qed
  next
    case Own_run
    have "work_left T
       (s\<lparr>infos := (infos s)[tid := (infos s ! tid)\<lparr>range_start := range_start (infos s ! tid) + 1\<rparr>],
          pcs := (pcs s)[tid := Own_load],
          calls := calls s @ [(tid, range_start (infos s ! tid))]\<rparr>) < work_left T s"
      using tid len(1)
    proof (rule work_left_run)
      show "range_len ((infos s)[tid := (infos s ! tid)\<lparr>range_start := range_start (infos s ! tid) + 1\<rparr>] ! r)
          = range_len (infos s ! r)" for r
        using tid len(2) by (cases "r = tid") simp_all
    qed (simp add: Own_run rank_simps)
    then show ?thesis using tid by (simp add: thread_step_def Own_run Let_def)
  next
    case (Steal_load t)
    with ok have t: "t < T" by (simp add: pc_ok_simps)
    show ?thesis
    proof (cases "range_len (infos s ! t) > 0")
      case True
      have "work_left T (s\<lparr>pcs := (pcs s)[tid := Steal_cas t (range_len (infos s ! t))]\<rparr>)
          < work_left T s"
        using tid len(1) by (rule work_left_move) (simp add: Steal_load rank_simps)
      then show ?thesis using tid True by (simp add: thread_step_def Steal_load)
    next
      case False
      have "work_left T (s\<lparr>pcs := (pcs s)[tid := steal_from tid ((t + 1) mod T)]\<rparr>)
          < work_left T s"
        using tid len(1)
        by (rule work_left_move)
          (use rank_next_peer [OF tid t, of "infos s"] in \<open>simp add: Steal_load rank_simps\<close>)
      then show ?thesis using tid False by (simp add: thread_step_def Steal_load)
    qed
  next
    case (Steal_cas t v)
    with ok have t: "t < T" and v: "v \<noteq> 0" by (simp_all add: pc_ok_simps)
    show ?thesis
    proof (cases "range_len (infos s ! t) = v")
      case True
      have "work_left T
         (s\<lparr>infos := (infos s)[t := (infos s ! t)\<lparr>range_len := range_len (infos s ! t) - 1\<rparr>],
            pcs := (pcs s)[tid := Steal_run t]\<rparr>) < work_left T s"
        using tid t len
      proof (rule work_left_cas)
        show "range_len (infos s ! t) \<noteq> 0" using True v by simp
      qed (simp_all add: Steal_cas True rank_simps)
      then show ?thesis using tid True by (simp add: thread_step_def Steal_cas)
    next
      case False
      have "work_left T (s\<lparr>pcs := (pcs s)[tid := Steal_load t]\<rparr>) < work_left T s"
        using tid len(1) by (rule work_left_move) (simp add: Steal_cas False rank_simps)
      then show ?thesis using tid False by (simp add: thread_step_def Steal_cas)
    qed
  next
    case (Steal_run t)
    with ok have t: "t < T" by (simp add: pc_ok_simps)
    have "work_left T
       (s\<lparr>infos := (infos s)[t := (infos s ! t)\<lparr>range_end := range_end (infos s ! t) - 1\<rparr>],
          pcs := (pcs s)[tid := Steal_load t],
          calls := calls s @ [(tid, range_end (infos s ! t) - 1)]\<rparr>) < work_left T s"
      using tid len(1)
    proof (rule work_left_run)
      show "range_len ((infos s)[t := (infos s ! t)\<lparr>range_end := range_end (infos s ! t) - 1\<rparr>] ! r)
          = range_len (infos s ! r)" for r
        using t len(2) by (cases "r = t") simp_all
    qed (simp add: Steal_run rank_simps)
    then show ?thesis using tid by (simp add: thread_step_def Steal_run Let_def)
  next
    case Done
    with busy show ?thesis by simp
  qed
qed

lemma thread_step_idle:
  assumes "T \<le> tid \<or> pcs s ! tid = Done"
  shows "thread_step T tid s = s"
  using assms by (auto simp add: thread_step_def)

lemma thread_step_not_increasing:
  assumes "run_inv T off s"
  shows "work_left T (thread_step T tid s) \<le> work_left T s"
proof (cases "tid < T \<and> pcs s ! tid \<noteq> Done")
  case True
  with thread_step_decreases [OF assms, of tid] show ?thesis by simp
next
  case False
  then have "thread_step T tid s = s" by (intro thread_step_idle) auto
  then show ?thesis by simp
qed

lemma thread_step_pcs_other:
  assumes "th \<noteq> tid"
  shows "pcs (thread_step T tid s) ! th = pcs s ! th"
  using assms by (simp add: thread_step_def Let_def split: pc.splits)

lemma thread_step_Done:
  assumes "pcs s ! th = Done"
  shows "pcs (thread_step T tid s) ! th = Done"
proof (cases "th = tid")
  case True
  with assms show ?thesis by (simp add: thread_step_idle)
next
  case False
  with assms show ?thesis by (simp add: thread_step_pcs_other)
qed

lemma run_schedule_Cons:
  "run_schedule T s (tid # schedule) = run_schedule T (thread_step T tid s) schedule"
  by (simp add: run_schedule_def)

lemma run_schedule_Done:
  "pcs s ! th = Done \<Longrightarrow> pcs (run_schedule T s schedule) ! th = Done"
  by (induction schedule arbitrary: s) (simp_all add: run_schedule_Cons thread_step_Done, simp add: run_schedule_def)

text \<open>
  Every step of a thread that has not left \<open>ThreadRun\<close> at the end of an execution
  lowered the measure: the thread has taken at most \<open>work_left\<close> steps.
\<close>

lemma steps_bounded:
  assumes "run_inv T off s" "th < T" "pcs (run_schedule T s schedule) ! th \<noteq> Done"
  shows "count_list schedule th + work_left T (run_schedule T s schedule) \<le> work_left T s"
  using assms
proof (induction schedule arbitrary: s)
  case Nil
  then show ?case by (simp add: run_schedule_def)
next
  case (Cons tid schedule)
  let ?s1 = "thread_step T tid s"
  have inv1: "run_inv T off ?s1" using Cons.prems(1) by (rule thread_step_inv)
  have fin: "pcs (run_schedule T ?s1 schedule) ! th \<noteq> Done"
    using Cons.prems(3) by (simp add: run_schedule_Cons)
  from Cons.IH [OF inv1 Cons.prems(2) fin]
  have ih: "count_list schedule th + work_left T (run_schedule T ?s1 schedule)
      \<le> work_left T ?s1" .
  show ?case
  proof (cases "tid = th")
    case True
    have "pcs s ! th \<noteq> Done"
      using run_schedule_Done [of s th T "tid # schedule"] Cons.prems(3) by blast
    with thread_step_decreases [OF Cons.prems(1,2)] have "work_left T ?s1 < work_left T s"
      using True by simp
    with ih True show ?thesis by (simp add: run_schedule_Cons)
  next
    case False
    with ih thread_step_not_increasing [OF Cons.prems(1), of tid] show ?thesis
      by (simp add: run_schedule_Cons)
  qed
qed

lemma enough_steps_all_done:
  assumes inv: "run_inv T off s"
    and enough: "\<forall>th<T. work_left T s < count_list schedule th"
  shows "all_done (run_schedule T s schedule)"
proof -
  have len: "length (pcs (run_schedule T s schedule)) = T"
    using run_schedule_inv [OF inv] by (simp add: run_inv_def)
  have "pcs (run_schedule T s schedule) ! th = Done" if "th < T" for th
  proof (rule ccontr)
    assume "pcs (run_schedule T s schedule) ! th \<noteq> Done"
    from steps_bounded [OF inv that this] enough that show False by fastforce
  qed
  then show ?thesis by (simp add: all_done_def list_all_length len)
qed

lemma sum_diff_telescope:
  fixes off :: "nat \<Rightarrow> nat"
  assumes "\<And>i j. i \<le> j \<Longrightarrow> off i \<le> off j"
  shows "(\<Sum>r<T. off (Suc r) - off r) = off T - off 0"
proof (induction T)
  case 0
  then show ?case by simp
next
  case (Suc T)
  have "off 0 \<le> off T" "off T \<le> off (Suc T)" by (simp_all add: assms)
  with Suc show ?case by simp
qed

lemma start_run_work_left:
  assumes T: "0 < T" "T < 2 ^ 64" and run: "start_run T N = Inr s0"
  shows "work_left T s0 = (2 * T + 1) * unat N + T * (4 * T + 2)"
proof -
  define off where "off = slot_offset (unat N div T) (unat N mod T)"
  have s0: "s0 = \<lparr>infos = map (\<lambda>j.
      \<lparr>range_start = of_nat (off j), range_end = of_nat (off (Suc j)),
       range_len = of_nat (off (Suc j) - off j)\<rparr>) [0..<T],
      pcs = replicate T Own_load, calls = []\<rparr>"
    using run Run_ranges_eq [OF T, of N] by (simp add: start_run_def off_def)
  have total: "off T = unat N"
    unfolding off_def using T(1) by (rule slot_offset_total)
  have zero: "off 0 = 0" by (simp add: off_def slot_offset_def)
  have mono: "off i \<le> off j" if "i \<le> j" for i j
    unfolding off_def using that by (rule slot_offset_mono)
  have ud: "unat (of_nat (off (Suc i) - off i) :: size_t) = off (Suc i) - off i" if "i < T" for i
  proof (rule unat_of_nat_small)
    have "off (Suc i) - off i \<le> off (Suc i)" by simp
    also have "\<dots> \<le> off T" using that by (intro mono) simp
    also have "\<dots> < 2 ^ 64" unfolding total using unsigned_less [of N, where ?'a = nat] by simp
    finally show "off (Suc i) - off i < 2 ^ 64" .
  qed
  have "unat (range_len (infos s0 ! r)) = off (Suc r) - off r" if "r < T" for r
    using that ud [OF that] by (simp add: s0 del: of_nat_diff)
  then have "(\<Sum>r<T. unat (range_len (infos s0 ! r))) = (\<Sum>r<T. off (Suc r) - off r)"
    by (intro sum.cong) simp_all
  also have "\<dots> = unat N"
    using sum_diff_telescope [of off T, OF mono] by (simp add: total zero)
  finally have a: "(\<Sum>r<T. unat (range_len (infos s0 ! r))) = unat N" .
  have "rank T th (infos s0) (pcs s0 ! th) = 4 * T + 2" if "th < T" for th
    using that by (simp add: s0 rank_simps)
  then have "(\<Sum>th<T. rank T th (infos s0) (pcs s0 ! th)) = (\<Sum>th<T. 4 * T + 2)"
    by (intro sum.cong) simp_all
  then have b: "(\<Sum>th<T. rank T th (infos s0) (pcs s0 ! th)) = T * (4 * T + 2)" by simp
  show ?thesis unfolding work_left_def a b ..
qed

text \<open>
  C1. On a pool with \<open>T\<close> worker slots, \<open>Run(body, N)\<close> releases \<open>T\<close> threads into
  \<open>ThreadRun\<close>. In every interleaving of their steps no index is passed to the body
  twice and only indices of \<open>[0, N)\<close> are passed; when all threads have left
  \<open>ThreadRun\<close>, every index of \<open>[0, N)\<close> has been passed to the body, so each exactly
  once, by the owner from \<open>range_start\<close> upward or by a stealer from \<open>range_end - 1\<close>
  downward. The threads do leave \<open>ThreadRun\<close>: every step of a thread inside it lowers
  \<open>work_left\<close>, which starts at \<open>(2 * T + 1) * N + T * (4 * T + 2)\<close>, so an execution
  that gives each thread more steps than that ends with all threads out.
\<close>

theorem ThreadRun_exactly_once:
  assumes "0 < T" and "T < 2 ^ 64"
  shows "\<exists>s0. start_run T N = Inr s0
    \<and> work_left T s0 = (2 * T + 1) * unat N + T * (4 * T + 2)
    \<and> (\<forall>schedule.
         distinct (executed (run_schedule T s0 schedule))
         \<and> (\<forall>i \<in> set (executed (run_schedule T s0 schedule)). i < N)
         \<and> (all_done (run_schedule T s0 schedule)
              \<longrightarrow> set (executed (run_schedule T s0 schedule)) = {i. i < N})
         \<and> ((\<forall>th<T. work_left T s0 < count_list schedule th)
              \<longrightarrow> all_done (run_schedule T s0 schedule)))"
proof -
  define off where "off = slot_offset (unat N div T) (unat N mod T)"
  from start_run_inv [OF assms, of N] obtain s0 where
    run: "start_run T N = Inr s0" and inv0: "run_inv T off s0"
    unfolding off_def by blast
  have total: "off T = unat N"
    unfolding off_def using assms(1) by (rule slot_offset_total)
  have zero: "off 0 = 0" by (simp add: off_def slot_offset_def)
  have mono: "off i \<le> off j" if "i \<le> j" for i j
    unfolding off_def using that by (rule slot_offset_mono)
  have "distinct (executed (run_schedule T s0 schedule))
         \<and> (\<forall>i \<in> set (executed (run_schedule T s0 schedule)). i < N)
         \<and> (all_done (run_schedule T s0 schedule)
              \<longrightarrow> set (executed (run_schedule T s0 schedule)) = {i. i < N})
         \<and> ((\<forall>th<T. work_left T s0 < count_list schedule th)
              \<longrightarrow> all_done (run_schedule T s0 schedule))" for schedule
  proof -
    have inv: "run_inv T off (run_schedule T s0 schedule)"
      using inv0 by (rule run_schedule_inv)
    note safe = inv_safe [OF inv mono zero total]
    note complete = inv_complete [OF inv mono zero total]
    note finish = enough_steps_all_done [OF inv0, of schedule]
    from safe complete finish show ?thesis by blast
  qed
  with run start_run_work_left [OF assms run] show ?thesis by blast
qed

lemma start23:
  "start_run 2 3 = Inr \<lparr>infos = [\<lparr>range_start = 0, range_end = 2, range_len = 2\<rparr>,
         \<lparr>range_start = 2, range_end = 3, range_len = 1\<rparr>],
        pcs = [Own_load, Own_load], calls = []\<rparr>"
  by code_simp

lemma run23:
  "run_schedule 2 \<lparr>infos = [\<lparr>range_start = 0, range_end = 2, range_len = 2\<rparr>,
         \<lparr>range_start = 2, range_end = 3, range_len = 1\<rparr>],
        pcs = [Own_load, Own_load], calls = []\<rparr>
      [0,0,0,1,1,1,0,0,0,1,1,1,0,0,0,0,0,1,1,1,1,1,1]
   = \<lparr>infos = [\<lparr>range_start = 2, range_end = 2, range_len = 0\<rparr>,
         \<lparr>range_start = 3, range_end = 3, range_len = 0\<rparr>],
        pcs = [Done, Done], calls = [(0, 0), (1, 2), (0, 1)]\<rparr>"
  by code_simp

theorem ThreadRun_exactly_once_witness:
  "(0 :: nat) < 2 \<and> (2 :: nat) < 2 ^ 64
   \<and> start_run 2 3 = Inr \<lparr>infos = [\<lparr>range_start = 0, range_end = 2, range_len = 2\<rparr>,
         \<lparr>range_start = 2, range_end = 3, range_len = 1\<rparr>],
        pcs = [Own_load, Own_load], calls = []\<rparr>
   \<and> work_left 2 \<lparr>infos = [\<lparr>range_start = 0, range_end = 2, range_len = 2\<rparr>,
         \<lparr>range_start = 2, range_end = 3, range_len = 1\<rparr>],
        pcs = [Own_load, Own_load], calls = []\<rparr> = 35
   \<and> all_done (run_schedule 2 \<lparr>infos = [\<lparr>range_start = 0, range_end = 2, range_len = 2\<rparr>,
         \<lparr>range_start = 2, range_end = 3, range_len = 1\<rparr>],
        pcs = [Own_load, Own_load], calls = []\<rparr>
      [0,0,0,1,1,1,0,0,0,1,1,1,0,0,0,0,0,1,1,1,1,1,1])
   \<and> distinct (executed (run_schedule 2 \<lparr>infos = [\<lparr>range_start = 0, range_end = 2, range_len = 2\<rparr>,
         \<lparr>range_start = 2, range_end = 3, range_len = 1\<rparr>],
        pcs = [Own_load, Own_load], calls = []\<rparr>
      [0,0,0,1,1,1,0,0,0,1,1,1,0,0,0,0,0,1,1,1,1,1,1]))
   \<and> set (executed (run_schedule 2 \<lparr>infos = [\<lparr>range_start = 0, range_end = 2, range_len = 2\<rparr>,
         \<lparr>range_start = 2, range_end = 3, range_len = 1\<rparr>],
        pcs = [Own_load, Own_load], calls = []\<rparr>
      [0,0,0,1,1,1,0,0,0,1,1,1,0,0,0,0,0,1,1,1,1,1,1])) = {i. i < 3}
   \<and> executed (run_schedule 2 \<lparr>infos = [\<lparr>range_start = 0, range_end = 2, range_len = 2\<rparr>,
         \<lparr>range_start = 2, range_end = 3, range_len = 1\<rparr>],
        pcs = [Own_load, Own_load], calls = []\<rparr>
      [0,0,0,1,1,1,0,0,0,1,1,1,0,0,0,0,0,1,1,1,1,1,1]) = [0, 2, 1]"
proof -
  have a: "(0 :: nat) < 2" and b: "(2 :: nat) < 2 ^ 64" by simp_all
  from ThreadRun_exactly_once [OF a b, of 3] obtain s0 where
    s0: "start_run 2 3 = Inr s0"
    and w: "work_left 2 s0 = (2 * 2 + 1) * unat (3 :: size_t) + 2 * (4 * 2 + 2)"
    and all: "\<And>schedule. distinct (executed (run_schedule 2 s0 schedule))
         \<and> (all_done (run_schedule 2 s0 schedule)
              \<longrightarrow> set (executed (run_schedule 2 s0 schedule)) = {i. i < 3})"
    by blast
  from s0 have eq: "s0 = \<lparr>infos = [\<lparr>range_start = 0, range_end = 2, range_len = 2\<rparr>,
         \<lparr>range_start = 2, range_end = 3, range_len = 1\<rparr>],
        pcs = [Own_load, Own_load], calls = []\<rparr>"
    unfolding start23 by simp
  have fin: "all_done (run_schedule 2 \<lparr>infos = [\<lparr>range_start = 0, range_end = 2, range_len = 2\<rparr>,
         \<lparr>range_start = 2, range_end = 3, range_len = 1\<rparr>],
        pcs = [Own_load, Own_load], calls = []\<rparr>
      [0,0,0,1,1,1,0,0,0,1,1,1,0,0,0,0,0,1,1,1,1,1,1])"
    unfolding run23 by (simp add: all_done_def)
  have ex: "executed (run_schedule 2 \<lparr>infos = [\<lparr>range_start = 0, range_end = 2, range_len = 2\<rparr>,
         \<lparr>range_start = 2, range_end = 3, range_len = 1\<rparr>],
        pcs = [Own_load, Own_load], calls = []\<rparr>
      [0,0,0,1,1,1,0,0,0,1,1,1,0,0,0,0,0,1,1,1,1,1,1]) = [0, 2, 1]"
    unfolding run23 by (simp add: executed_def)
  from all [of "[0,0,0,1,1,1,0,0,0,1,1,1,0,0,0,0,0,1,1,1,1,1,1]"] fin
  have "distinct (executed (run_schedule 2 \<lparr>infos = [\<lparr>range_start = 0, range_end = 2, range_len = 2\<rparr>,
         \<lparr>range_start = 2, range_end = 3, range_len = 1\<rparr>],
        pcs = [Own_load, Own_load], calls = []\<rparr>
      [0,0,0,1,1,1,0,0,0,1,1,1,0,0,0,0,0,1,1,1,1,1,1]))" "set (executed (run_schedule 2 \<lparr>infos = [\<lparr>range_start = 0, range_end = 2, range_len = 2\<rparr>,
         \<lparr>range_start = 2, range_end = 3, range_len = 1\<rparr>],
        pcs = [Own_load, Own_load], calls = []\<rparr>
      [0,0,0,1,1,1,0,0,0,1,1,1,0,0,0,0,0,1,1,1,1,1,1])) = {i. i < 3}"
    unfolding eq by blast+
  with a b start23 w fin ex show ?thesis unfolding eq by simp
qed

end
